theory Spec2Isabelle
  imports Main "HOL-Library.AList"
begin

section \<open>The worker-pool scheduler (class WorkersFactory)\<close>

text \<open>
  The embedding follows \<^verbatim>\<open>workers-factory.ts\<close>. The orchestrator is single threaded:
  it is a state machine whose inputs are the calls of its public methods
  (\<^verbatim>\<open>reserve\<close>, \<^verbatim>\<open>schedule\<close>, \<^verbatim>\<open>terminate\<close>) and the \<^verbatim>\<open>onmessage\<close> events of
  the Web Workers it created. The RxJS subscriptions that mutate the pool are part of the
  state. Telemetry (\<^verbatim>\<open>Process\<close>, \<^verbatim>\<open>Context.info\<close>, the forwarding of CDN events) changes
  no pool state and is left out. \<^verbatim>\<open>Context.withChild(name, f)\<close> of the logging context
  (module \<^verbatim>\<open>../context\<close>) is taken to run \<^verbatim>\<open>f\<close>
  and to return what it returns (its source is not part of the sources given).
\<close>

subsection \<open>Values and messages\<close>

text \<open>A value of TypeScript type \<^verbatim>\<open>unknown\<close> that crosses the worker boundary.\<close>

datatype jsval = JsUndefined | JsValue string

text \<open>The \<^verbatim>\<open>type\<close> field of \<^verbatim>\<open>MessageEventData\<close>.\<close>

datatype msg_type = Execute | InstallScript | Exit | Start | Log | DependencyInstalled | Data

text \<open>
  A message posted by a worker (\<^verbatim>\<open>MessageEventData\<close> with \<^verbatim>\<open>MessageDataExit\<close>,
  \<^verbatim>\<open>MessageDataLog\<close> or \<^verbatim>\<open>MessageDataData\<close>): \<open>data_error\<close> is the \<^verbatim>\<open>error\<close> flag of an
  Exit, \<open>data_result\<close> its \<^verbatim>\<open>result\<close> (the text of a Log, the payload of a Data).
\<close>

record message =
  mtype :: msg_type
  data_taskId :: string
  data_workerId :: string
  data_error :: bool
  data_result :: jsval

text \<open>
  The data of an Execute message sent to a worker (\<^verbatim>\<open>MessageDataExecute\<close>). The entry
  point travels as source text.
\<close>

record execute_data =
  exec_taskId :: string
  exec_workerId :: string
  exec_entryPoint :: string
  exec_args :: jsval

subsection \<open>Pool state\<close>

text \<open>An entry of \<^verbatim>\<open>tasksQueue\<close>; its \<^verbatim>\<open>channel$\<close> is determined by \<open>taskId\<close>.\<close>

record queued_task =
  taskId :: string
  targetWorkerId :: "string option"
  args :: jsval
  entryPoint :: string

text \<open>
  What is subscribed to the observable returned by \<^verbatim>\<open>createWorker$\<close>: the \<^verbatim>\<open>forkJoin\<close> of
  \<^verbatim>\<open>reserve\<close>, or the \<^verbatim>\<open>map\<close> of \<^verbatim>\<open>schedule\<close> that pushes the task and calls \<^verbatim>\<open>pickTask\<close>.
\<close>

datatype continuation = ForkJoin | Dispatch queued_task

text \<open>
  One Worker object made by \<^verbatim>\<open>createWorker$\<close> with the closure around it: the drawn
  worker id, the task id of the installation, and the pipeline
  \<^verbatim>\<open>workerChannel$.pipe(filter Exit, take(1), tap(register))\<close>, which is cold until
  subscribed and completed once \<^verbatim>\<open>take(1)\<close> has let a message through.
\<close>

datatype pipeline_state = Unsubscribed | Waiting continuation | Completed

record unit_rec =
  workerId :: string
  installTaskId :: string
  pipeline :: pipeline_state

text \<open>
  The fields of \<^verbatim>\<open>WorkersFactory\<close>. \<open>workers\<close> is the value of \<^verbatim>\<open>workers$\<close>, an object
  whose own keys are kept in insertion order; a Worker is named by its index in \<open>units\<close>.
  \<open>runningTasks\<close> holds pairs (workerId, taskId). \<open>exitSubs\<close> are the live subscriptions
  made by \<^verbatim>\<open>pickTask\<close> on a task channel, as pairs (taskId, workerId), in subscription
  order. \<open>releaseSubscribed\<close> tells whether the subscriber that the constructor gave to
  \<^verbatim>\<open>workerReleased$\<close> is still subscribed. \<open>posted\<close> logs every \<^verbatim>\<open>worker.postMessage\<close>,
  \<open>terminated\<close> every \<^verbatim>\<open>worker.terminate()\<close>.
\<close>

record state =
  poolSize :: int
  environment :: jsval
  workers :: "(string \<times> nat) list"
  runningTasks :: "(string \<times> string) list"
  busyWorkers :: "string list"
  tasksQueue :: "queued_task list"
  units :: "unit_rec list"
  exitSubs :: "(string \<times> string) list"
  releaseSubscribed :: bool
  posted :: "(nat \<times> execute_data) list"
  terminated :: "nat list"

datatype error = UnknownWorker | TypeError

subsection \<open>Property lookup on the workers object\<close>

text \<open>
  \<^verbatim>\<open>this.workers$.value[id]\<close> reads an own property or, failing that, one inherited from
  \<^verbatim>\<open>Object.prototype\<close> (the object is built by object literals). Inherited values are
  functions or objects: truthy, and without a \<^verbatim>\<open>worker\<close> field.
\<close>

definition Object_prototype_names :: "string list" where
  "Object_prototype_names =
     [''constructor'', ''hasOwnProperty'', ''isPrototypeOf'', ''propertyIsEnumerable'',
      ''toLocaleString'', ''toString'', ''valueOf'', ''__proto__'', ''__defineGetter__'',
      ''__defineSetter__'', ''__lookupGetter__'', ''__lookupSetter__'']"

datatype property = Own nat | Inherited | Absent

definition get_property :: "(string \<times> nat) list \<Rightarrow> string \<Rightarrow> property" where
  "get_property obj k =
     (case map_of obj k of
        Some h \<Rightarrow> Own h
      | None \<Rightarrow> if k \<in> set Object_prototype_names then Inherited else Absent)"

subsection \<open>pickTask\<close>

text \<open>The two predicates of \<^verbatim>\<open>pickTask\<close>, as written: the one of \<^verbatim>\<open>filter\<close> and the one of \<^verbatim>\<open>find\<close>.\<close>

definition eligible :: "string \<Rightarrow> queued_task \<Rightarrow> bool" where
  "eligible w t = (targetWorkerId t = None \<or> targetWorkerId t = Some w)"

definition find_pred :: "string \<Rightarrow> queued_task \<Rightarrow> bool" where
  "find_pred w t =
     (case targetWorkerId t of
        None \<Rightarrow> True
      | Some x \<Rightarrow> if x \<noteq> [] then x = w else True)"

definition execute_of :: "string \<Rightarrow> queued_task \<Rightarrow> execute_data" where
  "execute_of w t =
     \<lparr>exec_taskId = taskId t, exec_workerId = w,
      exec_entryPoint = ''return '' @ entryPoint t, exec_args = args t\<rparr>"

text \<open>
  \<^verbatim>\<open>pickTask(workerId)\<close>. The result pairs the exception thrown, if any, with the state the
  call leaves. Destructuring the result of \<^verbatim>\<open>find\<close> throws when nothing is found; reading
  \<^verbatim>\<open>.worker\<close> of a missing property throws before the subscription, and
  \<^verbatim>\<open>worker.postMessage\<close> on an inherited property (whose \<^verbatim>\<open>.worker\<close> is undefined) throws
  after it.
\<close>

definition pickTask :: "string \<Rightarrow> state \<Rightarrow> error option \<times> state" where
  "pickTask w s =
     (if filter (eligible w) (tasksQueue s) = [] then (None, s)
      else
        let s1 = s\<lparr>busyWorkers := busyWorkers s @ [w]\<rparr> in
        (case find (find_pred w) (tasksQueue s1) of
           None \<Rightarrow> (Some TypeError, s1)
         | Some t \<Rightarrow>
            (let s2 = s1\<lparr>tasksQueue := filter (\<lambda>t'. taskId t' \<noteq> taskId t) (tasksQueue s1)\<rparr>;
                 s3 = s2\<lparr>runningTasks := runningTasks s2 @ [(w, taskId t)]\<rparr>
             in (case get_property (workers s3) w of
                   Absent \<Rightarrow> (Some TypeError, s3)
                 | Inherited \<Rightarrow>
                     (Some TypeError, s3\<lparr>exitSubs := exitSubs s3 @ [(taskId t, w)]\<rparr>)
                 | Own h \<Rightarrow>
                     (None, s3\<lparr>exitSubs := exitSubs s3 @ [(taskId t, w)],
                                posted := posted s3 @ [(h, execute_of w t)]\<rparr>)))))"

subsection \<open>Identifiers\<close>

text \<open>
  Ids are \<^verbatim>\<open>`w${Math.floor(Math.random() * 1e6)}`\<close> and \<^verbatim>\<open>`t${...}`\<close>. The random
  integer is an input of the model; \<open>string_of_nat\<close> is its decimal notation.
\<close>

fun string_of_nat :: "nat \<Rightarrow> string" where
  "string_of_nat n =
     (if n < 10 then [char_of (48 + n)]
      else string_of_nat (n div 10) @ [char_of (48 + n mod 10)])"

definition worker_id :: "nat \<Rightarrow> string" where
  "worker_id r = CHR ''w'' # string_of_nat r"

definition task_id :: "nat \<Rightarrow> string" where
  "task_id r = CHR ''t'' # string_of_nat r"

subsection \<open>createWorker$\<close>

text \<open>The source text of \<^verbatim>\<open>entryPointInstall\<close>, as \<^verbatim>\<open>String(entryPointInstall)\<close> gives it.\<close>

definition entryPointInstall_text :: string where
  "entryPointInstall_text = ''function entryPointInstall(input) { ... }''"

text \<open>
  \<^verbatim>\<open>createWorker$\<close> draws the worker id, then the task id of the installation, constructs
  the Worker and posts the installing Execute message at once. The observable it returns
  is cold: the new unit's pipeline waits for a subscriber. The result is the index of the
  new Worker and the new state. (The environment is taken as complete, as both callers of
  the constructor give it: \<^verbatim>\<open>postInstallTasks.map\<close> would throw on an absent list.)
\<close>

definition createWorker :: "nat \<Rightarrow> nat \<Rightarrow> state \<Rightarrow> nat \<times> state" where
  "createWorker rw ri s =
     (let h = length (units s) in
      (h, s\<lparr>units := units s @
                 [\<lparr>workerId = worker_id rw, installTaskId = task_id ri,
                   pipeline = Unsubscribed\<rparr>],
             posted := posted s @
                 [(h, \<lparr>exec_taskId = task_id ri, exec_workerId = worker_id rw,
                       exec_entryPoint = ''return '' @ entryPointInstall_text,
                       exec_args = environment s\<rparr>)]\<rparr>))"

definition subscribe :: "nat \<Rightarrow> continuation \<Rightarrow> state \<Rightarrow> state" where
  "subscribe h k s =
     (if h < length (units s)
      then s\<lparr>units := (units s)[h := (units s ! h)\<lparr>pipeline := Waiting k\<rparr>]\<rparr>
      else s)"

subsection \<open>reserve\<close>

text \<open>
  \<^verbatim>\<open>reserve({workersCount})\<close> calls \<^verbatim>\<open>createWorker$\<close> \<^verbatim>\<open>workersCount\<close> times; the argument
  here is the list of the draws of those calls, so \<^verbatim>\<open>workersCount\<close> is its length. The
  call is modelled together with the subscription of the \<^verbatim>\<open>forkJoin\<close> it returns, which
  subscribes to every pipeline in order (\<^verbatim>\<open>WorkersPoolImplementation.reserve\<close> subscribes
  in the same turn, through \<^verbatim>\<open>mergeMap\<close>).
\<close>

fun create_all :: "(nat \<times> nat) list \<Rightarrow> state \<Rightarrow> nat list \<times> state" where
  "create_all [] s = ([], s)"
| "create_all ((rw, ri) # ds) s =
     (case createWorker rw ri s of
        (h, s1) \<Rightarrow> (case create_all ds s1 of (hs, s2) \<Rightarrow> (h # hs, s2)))"

definition reserve :: "(nat \<times> nat) list \<Rightarrow> state \<Rightarrow> state" where
  "reserve draws s =
     (case create_all draws s of
        (hs, s1) \<Rightarrow> foldl (\<lambda>s' h. subscribe h ForkJoin s') s1 hs)"

subsection \<open>getIdleWorkerOrCreate$ and schedule\<close>

datatype worker_source = IdleWorker string | NewWorker nat | NoWorker

definition getIdleWorkerOrCreate :: "nat \<Rightarrow> nat \<Rightarrow> state \<Rightarrow> worker_source \<times> state" where
  "getIdleWorkerOrCreate rw ri s =
     (let create_or_none =
            (if int (length (map fst (workers s))) < poolSize s
             then (case createWorker rw ri s of (h, s1) \<Rightarrow> (NewWorker h, s1))
             else (NoWorker, s))
      in (case find (\<lambda>w. w \<notin> set (busyWorkers s)) (map fst (workers s)) of
            Some w \<Rightarrow> if w \<noteq> [] then (IdleWorker w, s) else create_or_none
          | None \<Rightarrow> create_or_none))"

text \<open>\<^verbatim>\<open>targetWorkerId && ...\<close>: an absent id and the empty string are both falsy.\<close>

definition truthy_id :: "string option \<Rightarrow> string option" where
  "truthy_id target =
     (case target of None \<Rightarrow> None | Some tw \<Rightarrow> if tw \<noteq> [] then Some tw else None)"

definition push :: "queued_task \<Rightarrow> state \<Rightarrow> state" where
  "push t s = s\<lparr>tasksQueue := tasksQueue s @ [t]\<rparr>"

text \<open>
  \<^verbatim>\<open>schedule({entryPoint, args, targetWorkerId})\<close> with its draws: the task id, and the two
  draws of \<^verbatim>\<open>createWorker$\<close> should it be called. The result pairs the exception that
  \<^verbatim>\<open>schedule\<close> throws to its caller, if any, with the state it leaves. On the path of an
  idle worker, \<^verbatim>\<open>of(...)\<close> emits during \<^verbatim>\<open>subscribe()\<close>, so the task is pushed and
  \<^verbatim>\<open>pickTask\<close> runs before \<^verbatim>\<open>schedule\<close> returns; an exception there is caught by the
  \<^verbatim>\<open>map\<close> operator and does not reach the caller.
\<close>

definition schedule ::
  "string \<Rightarrow> jsval \<Rightarrow> string option \<Rightarrow> nat \<times> nat \<times> nat \<Rightarrow> state \<Rightarrow> error option \<times> state" where
  "schedule ep a target draws s =
     (case draws of (rt, rw, ri) \<Rightarrow>
        (case truthy_id target of
           Some tw \<Rightarrow>
             (if get_property (workers s) tw = Absent then (Some UnknownWorker, s)
              else
                let s1 = push \<lparr>taskId = task_id rt, targetWorkerId = Some tw,
                               args = a, entryPoint = ep\<rparr> s
                in if tw \<notin> set (busyWorkers s1) then pickTask tw s1 else (None, s1))
         | None \<Rightarrow>
             (let t = \<lparr>taskId = task_id rt, targetWorkerId = None, args = a, entryPoint = ep\<rparr>
              in (case getIdleWorkerOrCreate rw ri s of
                    (NoWorker, s1) \<Rightarrow> (None, push t s1)
                  | (IdleWorker w, s1) \<Rightarrow> (None, snd (pickTask w (push t s1)))
                  | (NewWorker h, s1) \<Rightarrow> (None, subscribe h (Dispatch t) s1)))))"

subsection \<open>Messages from the workers\<close>

text \<open>
  \<^verbatim>\<open>workerReleased$.next({workerId, taskId})\<close>. The Subject has one subscriber, set up by
  the constructor; with no subscriber left the call does nothing. The subscriber filters
  the busy workers and the running tasks and calls \<^verbatim>\<open>pickTask\<close>. A function given to
  \<^verbatim>\<open>subscribe\<close> that throws is unsubscribed by RxJS 6 (the exception is reported
  asynchronously and does not reach the caller of \<^verbatim>\<open>next\<close>), and keeps what it did
  before the throw: after an exception of \<^verbatim>\<open>pickTask\<close> here, no Exit releases a worker
  any more.
\<close>

definition workerReleased :: "string \<Rightarrow> string \<Rightarrow> state \<Rightarrow> state" where
  "workerReleased w t s =
     (if releaseSubscribed s then
        (case pickTask w
                (s\<lparr>busyWorkers := filter (\<lambda>wId. wId \<noteq> w) (busyWorkers s),
                   runningTasks := filter (\<lambda>(w', t'). t' \<noteq> t) (runningTasks s)\<rparr>) of
           (None, s1) \<Rightarrow> s1
         | (Some e, s1) \<Rightarrow> s1\<lparr>releaseSubscribed := False\<rparr>)
      else s)"

text \<open>
  \<^verbatim>\<open>workerChannel$.next(data)\<close>: the pipeline of the unit, if subscribed and not
  completed, lets the first Exit through (whatever its task id and error flag),
  registers the worker and runs what is subscribed to it.
\<close>

definition workerChannel_next :: "nat \<Rightarrow> message \<Rightarrow> state \<Rightarrow> state" where
  "workerChannel_next h m s =
     (let u = units s ! h in
      (case pipeline u of
         Waiting k \<Rightarrow>
           (if mtype m = Exit then
              (let s1 = s\<lparr>units := (units s)[h := u\<lparr>pipeline := Completed\<rparr>],
                         workers := AList.update (workerId u) h (workers s)\<rparr>
               in (case k of
                     ForkJoin \<Rightarrow> s1
                   | Dispatch t \<Rightarrow> snd (pickTask (workerId u) (push t s1))))
            else s)
       | Unsubscribed \<Rightarrow> s
       | Completed \<Rightarrow> s))"

text \<open>
  \<^verbatim>\<open>mergedChannel$.next(data)\<close>: the Subject notifies the subscribers it has when the
  call starts, in subscription order. A subscription of \<^verbatim>\<open>pickTask\<close> for task id \<open>t\<close>
  lets the first Exit with that id through to \<^verbatim>\<open>workerReleased$\<close> and then completes
  (\<^verbatim>\<open>takeWhile\<close> inclusive); any other message leaves it as it is.
\<close>

fun deliver :: "string \<Rightarrow> (string \<times> string) list \<Rightarrow> state \<Rightarrow> state" where
  "deliver t [] s = s"
| "deliver t ((t', w) # subs) s =
     deliver t subs
       (if t' = t
        then (let s1 = workerReleased w t s in s1\<lparr>exitSubs := remove1 (t', w) (exitSubs s1)\<rparr>)
        else s)"

definition mergedChannel_next :: "message \<Rightarrow> state \<Rightarrow> state" where
  "mergedChannel_next m s =
     (if mtype m = Exit then deliver (data_taskId m) (exitSubs s) s else s)"

text \<open>\<^verbatim>\<open>worker.onmessage\<close> of the Worker with index \<open>h\<close>.\<close>

definition onmessage :: "nat \<Rightarrow> message \<Rightarrow> state \<Rightarrow> state" where
  "onmessage h m s =
     (if h < length (units s) then mergedChannel_next m (workerChannel_next h m s) else s)"

subsection \<open>terminate\<close>

definition terminate :: "state \<Rightarrow> state" where
  "terminate s = s\<lparr>terminated := terminated s @ map snd (workers s)\<rparr>"

subsection \<open>Construction and runs\<close>

text \<open>The constructor; \<open>hc\<close> is \<^verbatim>\<open>navigator.hardwareConcurrency\<close>.\<close>

definition init :: "nat \<Rightarrow> jsval \<Rightarrow> state" where
  "init hc env =
     \<lparr>poolSize = int hc - 2, environment = env, workers = [], runningTasks = [],
      busyWorkers = [], tasksQueue = [], units = [], exitSubs = [],
      releaseSubscribed = True, posted = [], terminated = []\<rparr>"

datatype event =
    Reserve "(nat \<times> nat) list"
  | Schedule string jsval "string option" "nat \<times> nat \<times> nat"
  | OnMessage nat message
  | Terminate

fun step :: "event \<Rightarrow> state \<Rightarrow> state" where
  "step (Reserve draws) s = reserve draws s"
| "step (Schedule ep a target draws) s = snd (schedule ep a target draws s)"
| "step (OnMessage h m) s = onmessage h m s"
| "step Terminate s = terminate s"

definition run :: "event list \<Rightarrow> state \<Rightarrow> state" where
  "run es s = foldl (\<lambda>s' e. step e s') s es"

subsection \<open>getTaskChannel$\<close>

text \<open>\<^verbatim>\<open>takeWhile(p, true)\<close> of RxJS: the first value that fails \<open>p\<close> is emitted too, and the stream ends.\<close>

fun takeWhile_inclusive :: "('a \<Rightarrow> bool) \<Rightarrow> 'a list \<Rightarrow> 'a list" where
  "takeWhile_inclusive p [] = []"
| "takeWhile_inclusive p (x # xs) = (if p x then x # takeWhile_inclusive p xs else [x])"

text \<open>
  The stream returned by \<^verbatim>\<open>getTaskChannel$(p, taskId, context)\<close>, as a function of the
  messages that \<^verbatim>\<open>mergedChannel$\<close> emits after the subscription.
\<close>

definition getTaskChannel :: "string \<Rightarrow> message list \<Rightarrow> message list" where
  "getTaskChannel tid ms =
     takeWhile_inclusive (\<lambda>m. mtype m \<noteq> Exit) (filter (\<lambda>m. data_taskId m = tid) ms)"

text \<open>
  The wording of the specification, for comparison: the messages of the shared stream
  up to and including the first Exit for the task id.
\<close>

fun upto_first_exit :: "string \<Rightarrow> message list \<Rightarrow> message list" where
  "upto_first_exit tid [] = []"
| "upto_first_exit tid (m # ms) =
     (if mtype m = Exit \<and> data_taskId m = tid then [m] else m # upto_first_exit tid ms)"

subsection \<open>entryPointWorker\<close>

text \<open>
  What a task's entry point does inside the worker: the calls of \<^verbatim>\<open>context.info\<close> and
  \<^verbatim>\<open>context.sendData\<close> it makes before it finishes (\<open>calls\<close>) and after (\<open>late_calls\<close>,
  from callbacks it left behind), and how it finishes: it returns a value that is not a
  Promise, throws, or returns a Promise that is fulfilled, rejected or never settled.
  \<^verbatim>\<open>postMessage\<close> is taken to succeed (the values posted can be cloned).
\<close>

datatype ctx_call = Info string | SendData jsval



definition ctx_message :: "execute_data \<Rightarrow> ctx_call \<Rightarrow> message" where
  "ctx_message d c =
     (case c of
        Info text \<Rightarrow>
          \<lparr>mtype = Log, data_taskId = exec_taskId d, data_workerId = exec_workerId d,
           data_error = False, data_result = JsValue text\<rparr>
      | SendData v \<Rightarrow>
          \<lparr>mtype = Data, data_taskId = exec_taskId d, data_workerId = exec_workerId d,
           data_error = False, data_result = v\<rparr>)"



subsection \<open>Invariants and admissible runs\<close>

text \<open>Every unit whose installation pipeline has completed is a key of the workers map.\<close>

definition registered_inv :: "state \<Rightarrow> bool" where
  "registered_inv s =
     list_all (\<lambda>u. pipeline u = Completed \<longrightarrow> workerId u \<in> fst ` set (workers s)) (units s)"

text \<open>
  The runs in which capacity is respected: the worker id drawn for a new unit is not
  the id of an earlier unit; \<^verbatim>\<open>schedule\<close> is called only when no unit is still being
  installed; \<^verbatim>\<open>reserve\<close> asks for no more units than the capacity left.
\<close>

fun admissible :: "event \<Rightarrow> state \<Rightarrow> bool" where
  "admissible (Reserve draws) s =
     (int (length (units s) + length draws) \<le> poolSize s \<and>
      distinct (map (\<lambda>d. worker_id (fst d)) draws) \<and>
      list_all (\<lambda>d. worker_id (fst d) \<notin> set (map workerId (units s))) draws)"
| "admissible (Schedule ep a target draws) s =
     (list_all (\<lambda>u. pipeline u = Completed) (units s) \<and>
      worker_id (fst (snd draws)) \<notin> set (map workerId (units s)))"
| "admissible (OnMessage h m) s = True"
| "admissible Terminate s = True"

fun run_ok :: "event list \<Rightarrow> state \<Rightarrow> bool" where
  "run_ok [] s = True"
| "run_ok (e # es) s = (admissible e s \<and> run_ok es (step e s))"

text \<open>The unit that \<^verbatim>\<open>createWorker$\<close> makes and the Execute message it posts, by their draws.\<close>

definition new_unit :: "nat \<Rightarrow> nat \<Rightarrow> pipeline_state \<Rightarrow> unit_rec" where
  "new_unit rw ri p = \<lparr>workerId = worker_id rw, installTaskId = task_id ri, pipeline = p\<rparr>"

definition install_execute :: "state \<Rightarrow> nat \<Rightarrow> nat \<Rightarrow> execute_data" where
  "install_execute s rw ri =
     \<lparr>exec_taskId = task_id ri, exec_workerId = worker_id rw,
      exec_entryPoint = ''return '' @ entryPointInstall_text, exec_args = environment s\<rparr>"

text \<open>
  The invariant behind the capacity bound: the worker ids of the units are distinct,
  installed units are registered, and the units are no more than the capacity.
\<close>

definition capacity_inv :: "state \<Rightarrow> bool" where
  "capacity_inv s =
     (distinct (map workerId (units s)) \<and> registered_inv s \<and>
      int (length (units s)) \<le> max 0 (poolSize s))"

text \<open>
  Two more facts of every state the pool can reach. No queued task, and no task waiting
  for a unit to be installed, is pinned to the empty string. Every entry of the workers
  map names a unit that has completed its installation pipeline and bears that id.
\<close>

definition queue_wf :: "state \<Rightarrow> bool" where
  "queue_wf s =
     (list_all (\<lambda>t. targetWorkerId t \<noteq> Some []) (tasksQueue s) \<and>
      list_all (\<lambda>u. case pipeline u of
                       Waiting (Dispatch t) \<Rightarrow> targetWorkerId t \<noteq> Some []
                     | _ \<Rightarrow> True) (units s))"

definition handles_inv :: "state \<Rightarrow> bool" where
  "handles_inv s =
     list_all (\<lambda>(w, h). h < length (units s) \<and> pipeline (units s ! h) = Completed \<and>
                 workerId (units s ! h) = w) (workers s)"

text \<open>
  Every unit whose installation pipeline has completed is bound in the workers map, under
  its worker id, to its own index.
\<close>

definition own_handle :: "state \<Rightarrow> bool" where
  "own_handle s =
     list_all (\<lambda>h. pipeline (units s ! h) = Completed \<longrightarrow>
                 map_of (workers s) (workerId (units s ! h)) = Some h)
       [0..<length (units s)]"

text \<open>
  The subscriber of \<^verbatim>\<open>workerReleased$\<close> is subscribed and every live subscription of
  \<^verbatim>\<open>pickTask\<close> was made for a key of the workers map. It holds along the runs in which
  no task is scheduled for a name that the workers object only inherits.
\<close>

definition live_inv :: "state \<Rightarrow> bool" where
  "live_inv s =
     (releaseSubscribed s \<and>
      list_all (\<lambda>(t, w). w \<in> set (map fst (workers s))) (exitSubs s))"

fun plain_target :: "event \<Rightarrow> bool" where
  "plain_target (Schedule ep a target draws) =
     (case target of None \<Rightarrow> True | Some tw \<Rightarrow> tw \<notin> set Object_prototype_names)"
| "plain_target (Reserve draws) = True"
| "plain_target (OnMessage h m) = True"
| "plain_target Terminate = True"

subsection \<open>Example runs\<close>

text \<open>Concrete runs from the constructor on, used to evaluate the definitions.\<close>

definition exit_of :: "string \<Rightarrow> string \<Rightarrow> bool \<Rightarrow> message" where
  "exit_of t w e =
     \<lparr>mtype = Exit, data_taskId = t, data_workerId = w, data_error = e,
      data_result = JsUndefined\<rparr>"


text \<open>The same with distinct task ids; C is pinned to \<open>w2\<close>.\<close>

definition demo_distinct :: state where
  "demo_distinct =
     run [Schedule ''A'' JsUndefined None (1, 2, 3),
          OnMessage 0 (exit_of ''t3'' ''w2'' False),
          Schedule ''B'' JsUndefined None (7, 8, 9),
          Schedule ''C'' JsUndefined (Some ''w2'') (6, 8, 9),
          Schedule ''D'' JsUndefined None (5, 8, 9)]
       (init 3 JsUndefined)"

text \<open>
  Capacity 1. A runs on \<open>w2\<close>; B and C are queued with the same drawn task id;
  \<^verbatim>\<open>reserve\<close> then adds worker \<open>w4\<close>, which is idle once installed.
\<close>

definition demo_idle :: state where
  "demo_idle =
     run [Schedule ''A'' JsUndefined None (1, 2, 3),
          OnMessage 0 (exit_of ''t3'' ''w2'' False),
          Schedule ''B'' JsUndefined None (7, 8, 9),
          Schedule ''C'' JsUndefined None (7, 8, 9),
          Reserve [(4, 6)],
          OnMessage 1 (exit_of ''t6'' ''w4'' False)]
       (init 3 JsUndefined)"

text \<open>Capacity 1, A running on \<open>w2\<close>, nothing queued.\<close>

definition demo_running :: state where
  "demo_running =
     run [Schedule ''A'' JsUndefined None (1, 2, 3),
          OnMessage 0 (exit_of ''t3'' ''w2'' False)]
       (init 3 JsUndefined)"

text \<open>Capacity 1; \<^verbatim>\<open>reserve\<close> of one worker, installed and idle.\<close>

definition demo_reserved :: state where
  "demo_reserved =
     run [Reserve [(2, 3)], OnMessage 0 (exit_of ''t3'' ''w2'' False)] (init 3 JsUndefined)"

text \<open>Messages of two tasks interleaved on the merged channel.\<close>

definition demo_messages :: "message list" where
  "demo_messages =
     [\<lparr>mtype = Start, data_taskId = ''t1'', data_workerId = ''w2'', data_error = False,
       data_result = JsUndefined\<rparr>,
      \<lparr>mtype = Log, data_taskId = ''t4'', data_workerId = ''w5'', data_error = False,
       data_result = JsValue ''other''\<rparr>,
      \<lparr>mtype = Data, data_taskId = ''t1'', data_workerId = ''w2'', data_error = False,
       data_result = JsValue ''x''\<rparr>,
      exit_of ''t4'' ''w5'' False,
      exit_of ''t1'' ''w2'' True,
      \<lparr>mtype = Log, data_taskId = ''t1'', data_workerId = ''w2'', data_error = False,
       data_result = JsValue ''late''\<rparr>,
      exit_of ''t1'' ''w2'' False]"

text \<open>
  Capacity 2. A and B each create a worker and run on it once it is installed; C is
  scheduled while both are busy.
\<close>

definition demo_capacity_events :: "event list" where
  "demo_capacity_events =
     [Schedule ''A'' JsUndefined None (1, 2, 3),
      OnMessage 0 (exit_of ''t3'' ''w2'' False),
      Schedule ''B'' JsUndefined None (4, 5, 6),
      OnMessage 1 (exit_of ''t6'' ''w5'' False)]"






text \<open>
  Capacity 2. A and B draw the same task id \<open>t7\<close> and run on \<open>w2\<close> and \<open>w5\<close>. The Exit of
  A arrives while B is running; then C and D are scheduled and dispatched, and E is
  queued.
\<close>

definition demo_shared_id :: state where
  "demo_shared_id =
     run [Schedule ''A'' JsUndefined None (7, 2, 3),
          OnMessage 0 (exit_of ''t3'' ''w2'' False),
          Schedule ''B'' JsUndefined None (7, 5, 6),
          OnMessage 1 (exit_of ''t6'' ''w5'' False),
          OnMessage 0 (exit_of ''t7'' ''w2'' False),
          Schedule ''C'' JsUndefined None (8, 0, 0),
          Schedule ''D'' JsUndefined None (9, 0, 0),
          Schedule ''E'' JsUndefined None (10, 0, 0)]
       (init 4 JsUndefined)"


section \<open>Auxiliary facts\<close>

subsection \<open>pickTask\<close>

lemma eligible_find_pred: "eligible w t \<Longrightarrow> find_pred w t"
  by (auto simp: eligible_def find_pred_def)

text \<open>The destructuring of the result of \<^verbatim>\<open>find\<close> cannot fail once the \<^verbatim>\<open>filter\<close> test has passed.\<close>

lemma find_total:
  assumes "filter (eligible w) q \<noteq> []"
  shows "\<exists>t. find (find_pred w) q = Some t"
proof -
  from assms obtain t where "t \<in> set q" "eligible w t"
    by (auto simp: filter_empty_conv)
  then have "\<exists>t\<in>set q. find_pred w t"
    using eligible_find_pred by blast
  then show ?thesis
    by (cases "find (find_pred w) q") (auto simp: find_None_iff)
qed

lemma find_Some_mem: "find P xs = Some x \<Longrightarrow> x \<in> set xs \<and> P x"
  by (induction xs) (auto split: if_splits)

lemma pickTask_picked:
  assumes "filter (eligible w) (tasksQueue s) \<noteq> []"
      and "find (find_pred w) (tasksQueue s) = Some t"
      and "map_of (workers s) w = Some h"
  shows "pickTask w s =
     (None, s\<lparr>busyWorkers := busyWorkers s @ [w],
              tasksQueue := filter (\<lambda>t'. taskId t' \<noteq> taskId t) (tasksQueue s),
              runningTasks := runningTasks s @ [(w, taskId t)],
              exitSubs := exitSubs s @ [(taskId t, w)],
              posted := posted s @ [(h, execute_of w t)]\<rparr>)"
  using assms by (simp add: pickTask_def Let_def get_property_def)

lemma pickTask_none:
  "filter (eligible w) (tasksQueue s) = [] \<Longrightarrow> pickTask w s = (None, s)"
  by (simp add: pickTask_def)

lemma find_filter_hd: "find P xs = (case filter P xs of [] \<Rightarrow> None | x # _ \<Rightarrow> Some x)"
  by (induction xs) auto

lemma find_pred_eligible:
  "targetWorkerId t \<noteq> Some [] \<Longrightarrow> find_pred w t = eligible w t"
  by (auto simp: find_pred_def eligible_def split: option.splits)

lemma find_oldest_eligible:
  assumes "\<forall>t\<in>set q. targetWorkerId t \<noteq> Some []"
  shows "find (find_pred w) q = (case filter (eligible w) q of [] \<Rightarrow> None | t # _ \<Rightarrow> Some t)"
proof -
  have "filter (find_pred w) q = filter (eligible w) q"
    using assms by (intro filter_cong) (auto simp: find_pred_eligible)
  then show ?thesis by (simp add: find_filter_hd)
qed

lemma filter_only_remove1:
  "filter (\<lambda>y. f y = f x) xs = [x] \<Longrightarrow> filter (\<lambda>y. f y \<noteq> f x) xs = remove1 x xs"
proof (induction xs)
  case Nil
  then show ?case by simp
next
  case (Cons y ys)
  show ?case
  proof (cases "f y = f x")
    case True
    with Cons.prems have yx: "y = x" and none: "filter (\<lambda>z. f z = f x) ys = []" by auto
    from none have "filter (\<lambda>z. f z \<noteq> f x) ys = ys"
      by (simp add: filter_empty_conv filter_id_conv)
    with True yx show ?thesis by simp
  next
    case False
    with Cons.prems have "filter (\<lambda>z. f z = f x) ys = [x]" by simp
    with Cons.IH False show ?thesis by auto
  qed
qed

lemma pickTask_oldest:
  assumes reg: "map_of (workers s) w = Some h"
      and wf: "\<forall>t\<in>set (tasksQueue s). targetWorkerId t \<noteq> Some []"
      and el: "filter (eligible w) (tasksQueue s) = t # rest"
  shows "pickTask w s =
           (None, s\<lparr>busyWorkers := busyWorkers s @ [w],
                    tasksQueue := filter (\<lambda>t'. taskId t' \<noteq> taskId t) (tasksQueue s),
                    runningTasks := runningTasks s @ [(w, taskId t)],
                    exitSubs := exitSubs s @ [(taskId t, w)],
                    posted := posted s @ [(h, execute_of w t)]\<rparr>)"
proof -
  from el have ne: "filter (eligible w) (tasksQueue s) \<noteq> []" by simp
  have f: "find (find_pred w) (tasksQueue s) = Some t"
    using find_oldest_eligible [OF wf, of w] el by simp
  show ?thesis by (rule pickTask_picked [OF ne f reg])
qed

lemma pickTask_frame:
  "units (snd (pickTask w s)) = units s \<and> workers (snd (pickTask w s)) = workers s \<and>
   poolSize (snd (pickTask w s)) = poolSize s \<and>
   environment (snd (pickTask w s)) = environment s \<and>
   terminated (snd (pickTask w s)) = terminated s"
  by (simp add: pickTask_def Let_def split: option.splits property.splits)

lemmas pickTask_units [simp] = pickTask_frame [THEN conjunct1]

lemmas pickTask_workers [simp] = pickTask_frame [THEN conjunct2, THEN conjunct1]

lemmas pickTask_poolSize [simp] = pickTask_frame [THEN conjunct2, THEN conjunct2, THEN conjunct1]

lemma pickTask_queue_subset: "set (tasksQueue (snd (pickTask w s))) \<subseteq> set (tasksQueue s)"
  by (auto simp: pickTask_def Let_def split: option.splits property.splits)

subsection \<open>Frames\<close>

lemma push_fields [simp]:
  "busyWorkers (push t s) = busyWorkers s" "workers (push t s) = workers s"
  "units (push t s) = units s" "poolSize (push t s) = poolSize s"
  "tasksQueue (push t s) = tasksQueue s @ [t]" "posted (push t s) = posted s"
  "runningTasks (push t s) = runningTasks s" "exitSubs (push t s) = exitSubs s"
  by (simp_all add: push_def)

lemma subscribe_frame [simp]:
  "workers (subscribe h k s) = workers s" "poolSize (subscribe h k s) = poolSize s"
  "busyWorkers (subscribe h k s) = busyWorkers s" "tasksQueue (subscribe h k s) = tasksQueue s"
  "runningTasks (subscribe h k s) = runningTasks s" "exitSubs (subscribe h k s) = exitSubs s"
  "posted (subscribe h k s) = posted s"
  by (simp_all add: subscribe_def)

lemma workerReleased_cases:
  "workerReleased w t s = s \<or>
   (\<exists>upd. workerReleased w t s =
      (snd (pickTask w
         (s\<lparr>busyWorkers := filter (\<lambda>wId. wId \<noteq> w) (busyWorkers s),
            runningTasks := filter (\<lambda>(w', t'). t' \<noteq> t) (runningTasks s)\<rparr>)))
      \<lparr>releaseSubscribed := upd\<rparr>)"
proof (cases "releaseSubscribed s")
  case False
  then show ?thesis by (simp add: workerReleased_def)
next
  case True
  let ?s0 = "s\<lparr>busyWorkers := filter (\<lambda>wId. wId \<noteq> w) (busyWorkers s),
            runningTasks := filter (\<lambda>(w', t'). t' \<noteq> t) (runningTasks s)\<rparr>"
  obtain e s1 where pk: "pickTask w ?s0 = (e, s1)" by (cases "pickTask w ?s0")
  have s1: "snd (pickTask w ?s0) = s1" by (simp add: pk)
  have "workerReleased w t s = s1\<lparr>releaseSubscribed := releaseSubscribed s1\<rparr> \<or>
      workerReleased w t s = s1\<lparr>releaseSubscribed := False\<rparr>"
    using True pk by (cases e) (simp_all add: workerReleased_def)
  then have "\<exists>upd. workerReleased w t s = s1\<lparr>releaseSubscribed := upd\<rparr>" by blast
  then show ?thesis unfolding s1 by (rule disjI2)
qed

lemma workerReleased_live:
  assumes "releaseSubscribed s"
      and "pickTask w
             (s\<lparr>busyWorkers := filter (\<lambda>wId. wId \<noteq> w) (busyWorkers s),
                runningTasks := filter (\<lambda>(w', t'). t' \<noteq> t) (runningTasks s)\<rparr>) = (None, s1)"
  shows "workerReleased w t s = s1"
  using assms by (simp add: workerReleased_def)

lemma workerReleased_frame [simp]:
  "units (workerReleased w t s) = units s" "workers (workerReleased w t s) = workers s"
  "poolSize (workerReleased w t s) = poolSize s"
  using workerReleased_cases [of w t s] by auto

lemma deliver_frame [simp]:
  "units (deliver t subs s) = units s \<and> workers (deliver t subs s) = workers s \<and>
   poolSize (deliver t subs s) = poolSize s"
  by (induction subs arbitrary: s) (auto simp: Let_def)

lemma deliver_fields [simp]: "units (deliver t subs s) = units s" "workers (deliver t subs s) = workers s"
  using deliver_frame [of t subs s] by simp_all

lemma mergedChannel_next_frame [simp]:
  "units (mergedChannel_next m s) = units s" "workers (mergedChannel_next m s) = workers s"
  "poolSize (mergedChannel_next m s) = poolSize s"
  by (simp_all add: mergedChannel_next_def)

subsection \<open>Delivery of an Exit to the subscriptions\<close>

lemma deliver_append: "deliver t (us @ vs) s = deliver t vs (deliver t us s)"
  by (induction us arbitrary: s) auto

lemma deliver_no_match: "filter (\<lambda>(t', w'). t' = t) subs = [] \<Longrightarrow> deliver t subs s = s"
  by (induction subs arbitrary: s) (auto split: if_splits)

lemma deliver_single:
  assumes "filter (\<lambda>(t', w'). t' = t) subs = [(t, w)]"
  shows "deliver t subs s =
     (workerReleased w t s)\<lparr>exitSubs := remove1 (t, w) (exitSubs (workerReleased w t s))\<rparr>"
proof -
  from assms obtain us vs where subs: "subs = us @ (t, w) # vs"
    and us: "\<forall>u\<in>set us. \<not> (case u of (t', w') \<Rightarrow> t' = t)"
    and vs: "[] = filter (\<lambda>(t', w'). t' = t) vs"
    by (auto simp: filter_eq_Cons_iff)
  from us have "filter (\<lambda>(t', w'). t' = t) us = []" by (simp add: filter_empty_conv)
  then have a: "deliver t us s = s" by (rule deliver_no_match)
  from vs have b: "\<And>s'. deliver t vs s' = s'" by (simp add: deliver_no_match)
  show ?thesis
    by (simp add: subs deliver_append a b Let_def)
qed

lemma exit_release:
  assumes sender: "h < length (units s)" "pipeline (units s ! h) = Completed"
      and exit: "mtype m = Exit"
      and sub: "filter (\<lambda>(t', w'). t' = data_taskId m) (exitSubs s) = [(data_taskId m, w)]"
      and reg: "map_of (workers s) w = Some hw"
      and wf: "\<forall>t\<in>set (tasksQueue s). targetWorkerId t \<noteq> Some []"
      and live: "releaseSubscribed s"
  shows "(filter (eligible w) (tasksQueue s) = [] \<longrightarrow>
            w \<notin> set (busyWorkers (onmessage h m s)) \<and>
            onmessage h m s =
              s\<lparr>busyWorkers := filter (\<lambda>wId. wId \<noteq> w) (busyWorkers s),
                runningTasks := filter (\<lambda>(w', t'). t' \<noteq> data_taskId m) (runningTasks s),
                exitSubs := remove1 (data_taskId m, w) (exitSubs s)\<rparr>) \<and>
         (\<forall>t rest. filter (eligible w) (tasksQueue s) = t # rest \<longrightarrow>
            onmessage h m s =
              s\<lparr>busyWorkers := filter (\<lambda>wId. wId \<noteq> w) (busyWorkers s) @ [w],
                tasksQueue := filter (\<lambda>t'. taskId t' \<noteq> taskId t) (tasksQueue s),
                runningTasks :=
                  filter (\<lambda>(w', t'). t' \<noteq> data_taskId m) (runningTasks s) @ [(w, taskId t)],
                exitSubs := remove1 (data_taskId m, w) (exitSubs s) @ [(taskId t, w)],
                posted := posted s @ [(hw, execute_of w t)]\<rparr>)"
proof -
  let ?t = "data_taskId m"
  let ?s0 = "s\<lparr>busyWorkers := filter (\<lambda>wId. wId \<noteq> w) (busyWorkers s),
               runningTasks := filter (\<lambda>(w', t'). t' \<noteq> ?t) (runningTasks s)\<rparr>"
  have om: "onmessage h m s =
      (workerReleased w ?t s)\<lparr>exitSubs := remove1 (?t, w) (exitSubs (workerReleased w ?t s))\<rparr>"
    using sender exit
    by (simp add: onmessage_def workerChannel_next_def mergedChannel_next_def
        deliver_single [OF sub])
  have wr: "workerReleased w ?t s = s1" if "pickTask w ?s0 = (None, s1)" for s1
    using live that by (rule workerReleased_live)
  have reg0: "map_of (workers ?s0) w = Some hw" using reg by simp
  have wf0: "\<forall>t\<in>set (tasksQueue ?s0). targetWorkerId t \<noteq> Some []" using wf by simp
  have mem: "(?t, w) \<in> set (exitSubs s)"
  proof -
    have "(?t, w) \<in> set (filter (\<lambda>(t', w'). t' = ?t) (exitSubs s))" by (simp add: sub)
    then show ?thesis by simp
  qed
  show ?thesis
  proof (intro conjI allI impI)
    assume e: "filter (eligible w) (tasksQueue s) = []"
    then have "pickTask w ?s0 = (None, ?s0)" by (simp add: pickTask_none)
    then have "workerReleased w ?t s = ?s0" by (rule wr)
    then show "onmessage h m s =
              s\<lparr>busyWorkers := filter (\<lambda>wId. wId \<noteq> w) (busyWorkers s),
                runningTasks := filter (\<lambda>(w', t'). t' \<noteq> data_taskId m) (runningTasks s),
                exitSubs := remove1 (data_taskId m, w) (exitSubs s)\<rparr>"
      by (simp add: om)
    then show "w \<notin> set (busyWorkers (onmessage h m s))" by simp
  next
    fix t rest
    assume e: "filter (eligible w) (tasksQueue s) = t # rest"
    then have "filter (eligible w) (tasksQueue ?s0) = t # rest" by simp
    from pickTask_oldest [OF reg0 wf0 this] have "pickTask w ?s0 =
              (None, ?s0\<lparr>busyWorkers := busyWorkers ?s0 @ [w],
                       tasksQueue := filter (\<lambda>t'. taskId t' \<noteq> taskId t) (tasksQueue ?s0),
                       runningTasks := runningTasks ?s0 @ [(w, taskId t)],
                       exitSubs := exitSubs ?s0 @ [(taskId t, w)],
                       posted := posted ?s0 @ [(hw, execute_of w t)]\<rparr>)"
      by simp
    then have "workerReleased w ?t s =
              ?s0\<lparr>busyWorkers := busyWorkers ?s0 @ [w],
                       tasksQueue := filter (\<lambda>t'. taskId t' \<noteq> taskId t) (tasksQueue ?s0),
                       runningTasks := runningTasks ?s0 @ [(w, taskId t)],
                       exitSubs := exitSubs ?s0 @ [(taskId t, w)],
                       posted := posted ?s0 @ [(hw, execute_of w t)]\<rparr>"
      by (rule wr)
    then show "onmessage h m s =
              s\<lparr>busyWorkers := filter (\<lambda>wId. wId \<noteq> w) (busyWorkers s) @ [w],
                tasksQueue := filter (\<lambda>t'. taskId t' \<noteq> taskId t) (tasksQueue s),
                runningTasks :=
                  filter (\<lambda>(w', t'). t' \<noteq> data_taskId m) (runningTasks s) @ [(w, taskId t)],
                exitSubs := remove1 (data_taskId m, w) (exitSubs s) @ [(taskId t, w)],
                posted := posted s @ [(hw, execute_of w t)]\<rparr>"
      using mem by (simp add: om remove1_append)
  qed
qed


subsection \<open>Units and workers map after a call or a message\<close>

text \<open>What a call of schedule does to the units, the workers map and the capacity.\<close>

lemma schedule_shape:
  "workers (snd (schedule ep a target (rt, rw, ri) s)) = workers s \<and>
   poolSize (snd (schedule ep a target (rt, rw, ri) s)) = poolSize s \<and>
   (units (snd (schedule ep a target (rt, rw, ri) s)) = units s \<or>
    int (length (workers s)) < poolSize s \<and>
    (\<exists>k. units (snd (schedule ep a target (rt, rw, ri) s)) =
       units s @ [new_unit rw ri (Waiting k)]))"
  by (auto simp: schedule_def getIdleWorkerOrCreate_def createWorker_def subscribe_def
      new_unit_def Let_def split: option.splits)

lemma schedule_new_unit:
  "units (snd (schedule ep a target (rt, rw, ri) s)) = units s \<or>
   units (snd (schedule ep a target (rt, rw, ri) s)) =
     units s @ [new_unit rw ri (Waiting (Dispatch
        \<lparr>taskId = task_id rt, targetWorkerId = None, args = a, entryPoint = ep\<rparr>))]"
  by (auto simp: schedule_def getIdleWorkerOrCreate_def createWorker_def subscribe_def
      new_unit_def Let_def split: option.splits)

lemma workerChannel_next_shape:
  "h < length (units s) \<Longrightarrow>
   poolSize (workerChannel_next h m s) = poolSize s \<and>
   (units (workerChannel_next h m s) = units s \<and>
    workers (workerChannel_next h m s) = workers s \<or>
    (\<exists>k. pipeline (units s ! h) = Waiting k) \<and> mtype m = Exit \<and>
    units (workerChannel_next h m s) = (units s)[h := (units s ! h)\<lparr>pipeline := Completed\<rparr>] \<and>
    workers (workerChannel_next h m s) = AList.update (workerId (units s ! h)) h (workers s))"
  by (auto simp: workerChannel_next_def Let_def split: pipeline_state.splits continuation.splits)

lemma onmessage_shape:
  "poolSize (onmessage h m s) = poolSize s \<and>
   (units (onmessage h m s) = units s \<and> workers (onmessage h m s) = workers s \<or>
    h < length (units s) \<and> (\<exists>k. pipeline (units s ! h) = Waiting k) \<and> mtype m = Exit \<and>
    units (onmessage h m s) = (units s)[h := (units s ! h)\<lparr>pipeline := Completed\<rparr>] \<and>
    workers (onmessage h m s) = AList.update (workerId (units s ! h)) h (workers s))"
proof (cases "h < length (units s)")
  case True
  with workerChannel_next_shape [OF True, of m] show ?thesis
    by (simp add: onmessage_def)
next
  case False
  then show ?thesis by (simp add: onmessage_def)
qed

lemma createWorker_eq:
  "createWorker rw ri s =
     (length (units s),
      s\<lparr>units := units s @ [new_unit rw ri Unsubscribed],
        posted := posted s @ [(length (units s), install_execute s rw ri)]\<rparr>)"
  by (simp add: createWorker_def Let_def new_unit_def install_execute_def)

lemma install_execute_env:
  "environment s' = environment s \<Longrightarrow> install_execute s' = install_execute s"
  by (simp add: install_execute_def fun_eq_iff)

lemma upt_add_Suc: "[n..<n + Suc k] = n # [Suc n..<Suc n + k]"
proof -
  have "n < n + Suc k" by simp
  from upt_conv_Cons [OF this] show ?thesis by simp
qed

lemma create_all_eq:
  "create_all draws s =
     ([length (units s)..<length (units s) + length draws],
      s\<lparr>units := units s @ map (\<lambda>(rw, ri). new_unit rw ri Unsubscribed) draws,
        posted := posted s @
          map (\<lambda>(h, (rw, ri)). (h, install_execute s rw ri))
            (zip [length (units s)..<length (units s) + length draws] draws)\<rparr>)"
proof (induction draws arbitrary: s)
  case Nil
  then show ?case by simp
next
  case (Cons d ds)
  obtain rw ri where d: "d = (rw, ri)" by (cases d)
  let ?s1 = "s\<lparr>units := units s @ [new_unit rw ri Unsubscribed],
        posted := posted s @ [(length (units s), install_execute s rw ri)]\<rparr>"
  have env: "install_execute ?s1 = install_execute s"
    by (rule install_execute_env) simp
  have upt: "[length (units s)..<length (units s) + length (d # ds)] =
      length (units s) # [Suc (length (units s))..<Suc (length (units s)) + length ds]"
    using upt_add_Suc [of "length (units s)" "length ds"] by simp
  show ?case
    by (simp only: upt) (simp add: d createWorker_eq Cons.IH [of ?s1] env)
qed

lemma subscribe_all:
  "units s = us @ vs \<Longrightarrow>
   foldl (\<lambda>s' h. subscribe h k s') s [length us..<length us + length vs] =
     s\<lparr>units := us @ map (\<lambda>u. u\<lparr>pipeline := Waiting k\<rparr>) vs\<rparr>"
proof (induction vs arbitrary: us s)
  case Nil
  then show ?case by simp
next
  case (Cons v vs)
  let ?v = "v\<lparr>pipeline := Waiting k\<rparr>"
  let ?s1 = "s\<lparr>units := (us @ [?v]) @ vs\<rparr>"
  have step: "subscribe (length us) k s = ?s1"
    using Cons.prems by (simp add: subscribe_def)
  have upt: "[length us..<length us + length (v # vs)] =
      length us # [length (us @ [?v])..<length (us @ [?v]) + length vs]"
    using upt_add_Suc [of "length us" "length vs"] by simp
  have "units ?s1 = (us @ [?v]) @ vs" by simp
  from Cons.IH [OF this] show ?case
    by (simp only: upt foldl_Cons step) simp
qed

lemma reserve_eq:
  "reserve draws s =
     s\<lparr>units := units s @ map (\<lambda>(rw, ri). new_unit rw ri (Waiting ForkJoin)) draws,
       posted := posted s @
         map (\<lambda>(h, (rw, ri)). (h, install_execute s rw ri))
           (zip [length (units s)..<length (units s) + length draws] draws)\<rparr>"
proof -
  let ?s1 = "s\<lparr>units := units s @ map (\<lambda>(rw, ri). new_unit rw ri Unsubscribed) draws,
        posted := posted s @
          map (\<lambda>(h, (rw, ri)). (h, install_execute s rw ri))
            (zip [length (units s)..<length (units s) + length draws] draws)\<rparr>"
  have "units ?s1 = units s @ map (\<lambda>(rw, ri). new_unit rw ri Unsubscribed) draws" by simp
  from subscribe_all [OF this, of ForkJoin]
  have "foldl (\<lambda>s' h. subscribe h ForkJoin s') ?s1
          [length (units s)..<length (units s) + length draws] =
        ?s1\<lparr>units := units s @
          map (\<lambda>u. u\<lparr>pipeline := Waiting ForkJoin\<rparr>)
            (map (\<lambda>(rw, ri). new_unit rw ri Unsubscribed) draws)\<rparr>"
    by simp
  moreover have "map (\<lambda>u. u\<lparr>pipeline := Waiting ForkJoin\<rparr>)
            (map (\<lambda>(rw, ri). new_unit rw ri Unsubscribed) draws) =
          map (\<lambda>(rw, ri). new_unit rw ri (Waiting ForkJoin)) draws"
    by (simp add: new_unit_def split_def)
  ultimately show ?thesis
    by (simp add: reserve_def create_all_eq)
qed

lemma ids_onmessage: "map workerId (units (onmessage h m s)) = map workerId (units s)"
proof -
  from onmessage_shape [of h m s]
  consider (same) "units (onmessage h m s) = units s"
    | (reg) "h < length (units s)"
        "units (onmessage h m s) = (units s)[h := (units s ! h)\<lparr>pipeline := Completed\<rparr>]"
    by blast
  then show ?thesis
  proof cases
    case same
    then show ?thesis by simp
  next
    case reg
    then show ?thesis by (simp add: map_update list_update_same_conv)
  qed
qed

lemma ids_step: "\<exists>xs. map workerId (units (step e s)) = map workerId (units s) @ xs"
proof (cases e)
  case (Reserve draws)
  then show ?thesis by (simp add: reserve_eq)
next
  case (Schedule ep a target draws)
  obtain rt rw ri where d: "draws = (rt, rw, ri)" by (cases draws)
  from schedule_shape [of ep a target rt rw ri s] show ?thesis
    by (auto simp: Schedule d)
next
  case (OnMessage h m)
  then show ?thesis by (simp add: ids_onmessage)
next
  case Terminate
  then show ?thesis by (simp add: terminate_def)
qed

lemma run_Cons [simp]: "run (e # es) s = run es (step e s)"
  by (simp add: run_def)

lemma run_Nil [simp]: "run [] s = s"
  by (simp add: run_def)

lemma ids_run: "\<exists>xs. map workerId (units (run es s)) = map workerId (units s) @ xs"
proof (induction es arbitrary: s)
  case Nil
  then show ?case by simp
next
  case (Cons e es)
  from ids_step [of e s] obtain xs where
    a: "map workerId (units (step e s)) = map workerId (units s) @ xs" by blast
  from Cons [of "step e s"] obtain ys where
    b: "map workerId (units (run es (step e s))) = map workerId (units (step e s)) @ ys" by blast
  from a b show ?case by simp
qed

lemma run_keeps_id:
  assumes "j < length (units s)"
  shows "j < length (units (run es s)) \<and> workerId (units (run es s) ! j) = workerId (units s ! j)"
proof -
  from ids_run [of es s] obtain xs where
    a: "map workerId (units (run es s)) = map workerId (units s) @ xs" by blast
  then have "length (units (run es s)) = length (units s) + length xs"
    by (metis length_append length_map)
  with assms have j: "j < length (units (run es s))" by simp
  have "workerId (units (run es s) ! j) = map workerId (units (run es s)) ! j"
    using j by simp
  also have "\<dots> = map workerId (units s) ! j"
    using assms by (simp add: a nth_append)
  finally show ?thesis using j assms by simp
qed

lemma run_poolSize: "poolSize (run es s) = poolSize s"
proof (induction es arbitrary: s)
  case Nil
  then show ?case by simp
next
  case (Cons e es)
  have "poolSize (step e s) = poolSize s"
  proof (cases e)
    case (Schedule ep a target draws)
    obtain rt rw ri where d: "draws = (rt, rw, ri)" by (cases draws)
    from schedule_shape [of ep a target rt rw ri s] show ?thesis by (simp add: Schedule d)
  next
    case (OnMessage h m)
    from onmessage_shape [of h m s] show ?thesis by (simp add: OnMessage)
  qed (simp_all add: reserve_eq terminate_def)
  with Cons show ?case by simp
qed

subsection \<open>Installed units are registered\<close>

lemma registered_inv_nth:
  "registered_inv s \<longleftrightarrow>
     (\<forall>i<length (units s). pipeline (units s ! i) = Completed \<longrightarrow>
        workerId (units s ! i) \<in> fst ` set (workers s))"
  by (simp add: registered_inv_def list_all_length)

lemma keys_update: "fst ` set (AList.update k v al) = insert k (fst ` set al)"
proof -
  have "set (map fst (AList.update k v al)) = insert k (set (map fst al))"
    by (auto simp: update_keys)
  then show ?thesis by simp
qed

lemma registered_schedule:
  assumes "registered_inv s"
  shows "registered_inv (snd (schedule ep a target draws s))"
proof -
  obtain rt rw ri where d: "draws = (rt, rw, ri)" by (cases draws)
  from schedule_shape [of ep a target rt rw ri s] assms show ?thesis
    unfolding d by (auto simp: registered_inv_def new_unit_def)
qed

lemma registered_onmessage:
  assumes "registered_inv s"
  shows "registered_inv (onmessage h m s)"
proof -
  from onmessage_shape [of h m s]
  consider (same) "units (onmessage h m s) = units s" "workers (onmessage h m s) = workers s"
    | (reg) "h < length (units s)"
        "units (onmessage h m s) = (units s)[h := (units s ! h)\<lparr>pipeline := Completed\<rparr>]"
        "workers (onmessage h m s) = AList.update (workerId (units s ! h)) h (workers s)"
    by blast
  then show ?thesis
  proof cases
    case same
    with assms show ?thesis by (simp add: registered_inv_def)
  next
    case reg
    show ?thesis
      unfolding registered_inv_nth
    proof (intro allI impI)
      fix i
      assume i: "i < length (units (onmessage h m s))"
        and c: "pipeline (units (onmessage h m s) ! i) = Completed"
      show "workerId (units (onmessage h m s) ! i) \<in> fst ` set (workers (onmessage h m s))"
      proof (cases "i = h")
        case True
        with reg show ?thesis by (simp add: keys_update)
      next
        case False
        with i c reg have "i < length (units s)" "pipeline (units s ! i) = Completed" by auto
        with assms have "workerId (units s ! i) \<in> fst ` set (workers s)"
          by (simp add: registered_inv_nth)
        with False reg show ?thesis by (simp add: keys_update)
      qed
    qed
  qed
qed

lemma registered_reserve:
  "registered_inv s \<Longrightarrow> registered_inv (reserve draws s)"
  by (auto simp: reserve_eq registered_inv_def list_all_iff new_unit_def split_def)

lemma registered_step: "registered_inv s \<Longrightarrow> registered_inv (step e s)"
  by (cases e) (simp_all add: registered_schedule registered_onmessage registered_reserve,
      simp add: terminate_def registered_inv_def)

lemma registered_run: "registered_inv s \<Longrightarrow> registered_inv (run es s)"
  by (induction es arbitrary: s) (simp_all add: registered_step)

subsection \<open>The capacity invariant\<close>

lemma all_completed_le_workers:
  assumes d: "distinct (map workerId (units s))" and r: "registered_inv s"
      and c: "list_all (\<lambda>u. pipeline u = Completed) (units s)"
  shows "length (units s) \<le> length (workers s)"
proof -
  have sub: "set (map workerId (units s)) \<subseteq> set (map fst (workers s))"
    using r c by (auto simp: registered_inv_def list_all_iff)
  have "length (units s) = card (set (map workerId (units s)))"
    using distinct_card [OF d] by simp
  also have "\<dots> \<le> card (set (map fst (workers s)))"
    using sub by (simp add: card_mono)
  also have "\<dots> \<le> length (workers s)"
    by (metis card_length length_map)
  finally show ?thesis .
qed

lemma capacity_schedule:
  assumes adm: "admissible (Schedule ep a target draws) s" and inv: "capacity_inv s"
  shows "capacity_inv (snd (schedule ep a target draws s))"
proof -
  obtain rt rw ri where d: "draws = (rt, rw, ri)" by (cases draws)
  let ?s' = "snd (schedule ep a target (rt, rw, ri) s)"
  from adm d have comp: "list_all (\<lambda>u. pipeline u = Completed) (units s)"
    and fresh: "worker_id rw \<notin> set (map workerId (units s))" by simp_all
  from inv have di: "distinct (map workerId (units s))" and reg: "registered_inv s"
    and le: "int (length (units s)) \<le> max 0 (poolSize s)"
    by (simp_all add: capacity_inv_def)
  have reg': "registered_inv ?s'" using reg by (rule registered_schedule)
  from schedule_shape [of ep a target rt rw ri s]
  have ps: "poolSize ?s' = poolSize s" by simp
  from schedule_shape [of ep a target rt rw ri s]
  consider (same) "units ?s' = units s"
    | (new) k where "int (length (workers s)) < poolSize s"
        "units ?s' = units s @ [new_unit rw ri (Waiting k)]"
    by blast
  then have "distinct (map workerId (units ?s')) \<and> int (length (units ?s')) \<le> max 0 (poolSize s)"
  proof cases
    case same
    with di le show ?thesis by simp
  next
    case new
    from all_completed_le_workers [OF di reg comp] new(1)
    have "int (length (units s)) + 1 \<le> poolSize s" by simp
    with new(2) di fresh show ?thesis by (simp add: new_unit_def)
  qed
  with reg' ps show ?thesis by (simp add: capacity_inv_def d)
qed

lemma capacity_onmessage:
  assumes "capacity_inv s"
  shows "capacity_inv (onmessage h m s)"
proof -
  have "length (units (onmessage h m s)) = length (units s)"
    using ids_onmessage [of h m s] by (metis length_map)
  moreover have "poolSize (onmessage h m s) = poolSize s"
    using onmessage_shape [of h m s] by simp
  ultimately show ?thesis
    using assms by (simp add: capacity_inv_def ids_onmessage registered_onmessage)
qed

lemma capacity_reserve:
  assumes adm: "admissible (Reserve draws) s" and inv: "capacity_inv s"
  shows "capacity_inv (reserve draws s)"
proof -
  have ids: "map workerId (units (reserve draws s)) =
      map workerId (units s) @ map (\<lambda>d. worker_id (fst d)) draws"
    by (simp add: reserve_eq new_unit_def split_def)
  have len: "length (units (reserve draws s)) = length (units s) + length draws"
    by (simp add: reserve_eq)
  have ps: "poolSize (reserve draws s) = poolSize s" by (simp add: reserve_eq)
  from adm have "set (map (\<lambda>d. worker_id (fst d)) draws) \<inter> set (map workerId (units s)) = {}"
    by (auto simp: list_all_iff)
  with adm inv have "distinct (map workerId (units (reserve draws s)))"
    by (auto simp: ids capacity_inv_def)
  moreover from adm have "int (length (units (reserve draws s))) \<le> max 0 (poolSize s)"
    by (simp add: len)
  ultimately show ?thesis
    using inv by (simp add: capacity_inv_def ps registered_reserve)
qed

lemma capacity_step: "admissible e s \<Longrightarrow> capacity_inv s \<Longrightarrow> capacity_inv (step e s)"
proof (cases e)
  case (Reserve draws)
  assume "admissible e s" "capacity_inv s"
  with Reserve show ?thesis by (simp add: capacity_reserve del: admissible.simps)
next
  case (Schedule ep a target draws)
  assume "admissible e s" "capacity_inv s"
  with Schedule show ?thesis by (simp add: capacity_schedule del: admissible.simps)
next
  case (OnMessage h m)
  assume "capacity_inv s"
  with OnMessage show ?thesis by (simp add: capacity_onmessage)
next
  case Terminate
  assume "capacity_inv s"
  with Terminate show ?thesis by (simp add: capacity_inv_def terminate_def registered_inv_def)
qed

lemma capacity_run: "run_ok es s \<Longrightarrow> capacity_inv s \<Longrightarrow> capacity_inv (run es s)"
  by (induction es arbitrary: s) (simp_all add: capacity_step)

lemma capacity_init: "capacity_inv (init hc env)"
  by (simp add: capacity_inv_def registered_inv_def init_def)

subsection \<open>Reachable states\<close>

lemma workerReleased_queue_subset:
  "set (tasksQueue (workerReleased w t s)) \<subseteq> set (tasksQueue s)"
  using pickTask_queue_subset [of w "s\<lparr>busyWorkers := filter (\<lambda>wId. wId \<noteq> w) (busyWorkers s),
          runningTasks := filter (\<lambda>(w', t'). t' \<noteq> t) (runningTasks s)\<rparr>"]
    workerReleased_cases [of w t s]
  by auto

lemma deliver_queue_subset: "set (tasksQueue (deliver t subs s)) \<subseteq> set (tasksQueue s)"
proof (induction subs arbitrary: s)
  case Nil
  then show ?case by simp
next
  case (Cons x subs)
  obtain t' w where x: "x = (t', w)" by (cases x)
  show ?case
  proof (cases "t' = t")
    case True
    let ?s1 = "workerReleased w t s"
    have "set (tasksQueue (deliver t subs (?s1\<lparr>exitSubs := remove1 (t', w) (exitSubs ?s1)\<rparr>)))
        \<subseteq> set (tasksQueue (?s1\<lparr>exitSubs := remove1 (t', w) (exitSubs ?s1)\<rparr>))"
      by (rule Cons.IH)
    with workerReleased_queue_subset [of w t s] True show ?thesis
      by (auto simp: x Let_def)
  next
    case False
    with Cons.IH [of s] show ?thesis by (simp add: x)
  qed
qed

lemma onmessage_queue:
  "set (tasksQueue (onmessage h m s)) \<subseteq> set (tasksQueue s) \<or>
   h < length (units s) \<and>
   (\<exists>t. pipeline (units s ! h) = Waiting (Dispatch t) \<and>
        set (tasksQueue (onmessage h m s)) \<subseteq> insert t (set (tasksQueue s)))"
proof (cases "h < length (units s)")
  case False
  then show ?thesis by (simp add: onmessage_def)
next
  case True
  let ?s1 = "workerChannel_next h m s"
  have m: "set (tasksQueue (onmessage h m s)) \<subseteq> set (tasksQueue ?s1)"
    using True deliver_queue_subset [of "data_taskId m" "exitSubs ?s1" ?s1]
    by (simp add: onmessage_def mergedChannel_next_def)
  have "set (tasksQueue ?s1) \<subseteq> set (tasksQueue s) \<or>
      (\<exists>t. pipeline (units s ! h) = Waiting (Dispatch t) \<and>
        set (tasksQueue ?s1) \<subseteq> insert t (set (tasksQueue s)))"
  proof (cases "pipeline (units s ! h)")
    case (Waiting k)
    show ?thesis
    proof (cases k)
      case ForkJoin
      with Waiting show ?thesis by (simp add: workerChannel_next_def Let_def)
    next
      case (Dispatch t)
      let ?s0 = "push t (s\<lparr>units := (units s)[h := (units s ! h)\<lparr>pipeline := Completed\<rparr>],
          workers := AList.update (workerId (units s ! h)) h (workers s)\<rparr>)"
      from pickTask_queue_subset [of "workerId (units s ! h)" ?s0]
      have "set (tasksQueue (snd (pickTask (workerId (units s ! h)) ?s0))) \<subseteq>
          insert t (set (tasksQueue s))" by auto
      with Waiting Dispatch show ?thesis
        by (auto simp: workerChannel_next_def Let_def)
    qed
  qed (simp_all add: workerChannel_next_def Let_def)
  with m True show ?thesis by blast
qed

lemma schedule_queue:
  "set (tasksQueue (snd (schedule ep a target (rt, rw, ri) s))) \<subseteq>
     insert \<lparr>taskId = task_id rt, targetWorkerId = truthy_id target, args = a, entryPoint = ep\<rparr>
       (set (tasksQueue s))"
proof (cases "truthy_id target")
  case None
  let ?t = "\<lparr>taskId = task_id rt, targetWorkerId = None, args = a, entryPoint = ep\<rparr>"
  have "\<And>w. set (tasksQueue (snd (pickTask w (push ?t s)))) \<subseteq> insert ?t (set (tasksQueue s))"
    using pickTask_queue_subset [of _ "push ?t s"] by auto
  with None show ?thesis
    by (auto simp: schedule_def getIdleWorkerOrCreate_def createWorker_def Let_def
        split: option.splits)
next
  case (Some tw)
  let ?t = "\<lparr>taskId = task_id rt, targetWorkerId = Some tw, args = a, entryPoint = ep\<rparr>"
  have "set (tasksQueue (snd (pickTask tw (push ?t s)))) \<subseteq> insert ?t (set (tasksQueue s))"
    using pickTask_queue_subset [of tw "push ?t s"] by auto
  with Some show ?thesis
    by (auto simp: schedule_def Let_def)
qed

lemma truthy_id_wf: "truthy_id target \<noteq> Some []"
  by (auto simp: truthy_id_def split: option.splits)

lemma queue_wf_schedule:
  assumes "queue_wf s"
  shows "queue_wf (snd (schedule ep a target draws s))"
proof -
  obtain rt rw ri where d: "draws = (rt, rw, ri)" by (cases draws)
  let ?s' = "snd (schedule ep a target (rt, rw, ri) s)"
  from schedule_queue [of ep a target rt rw ri s] assms
  have q: "list_all (\<lambda>t. targetWorkerId t \<noteq> Some []) (tasksQueue ?s')"
    by (auto simp: queue_wf_def list_all_iff truthy_id_wf)
  from schedule_new_unit [of ep a target rt rw ri s] assms
  have "list_all (\<lambda>u. case pipeline u of
                       Waiting (Dispatch t) \<Rightarrow> targetWorkerId t \<noteq> Some []
                     | _ \<Rightarrow> True) (units ?s')"
    by (auto simp: queue_wf_def new_unit_def)
  with q show ?thesis by (simp add: queue_wf_def d)
qed

lemma queue_wf_onmessage:
  assumes "queue_wf s"
  shows "queue_wf (onmessage h m s)"
proof -
  let ?P = "\<lambda>u. case pipeline u of
                       Waiting (Dispatch t) \<Rightarrow> targetWorkerId t \<noteq> Some []
                     | _ \<Rightarrow> True"
  from assms have qs: "\<forall>t\<in>set (tasksQueue s). targetWorkerId t \<noteq> Some []"
    and us: "\<forall>u\<in>set (units s). ?P u"
    by (simp_all add: queue_wf_def list_all_iff)
  have q: "\<forall>t\<in>set (tasksQueue (onmessage h m s)). targetWorkerId t \<noteq> Some []"
  proof -
    from onmessage_queue [of h m s]
    consider "set (tasksQueue (onmessage h m s)) \<subseteq> set (tasksQueue s)"
      | t where "h < length (units s)" "pipeline (units s ! h) = Waiting (Dispatch t)"
          "set (tasksQueue (onmessage h m s)) \<subseteq> insert t (set (tasksQueue s))"
      by blast
    then show ?thesis
    proof cases
      case 1
      with qs show ?thesis by blast
    next
      case 2
      from 2(1) have "units s ! h \<in> set (units s)" by simp
      with us have "?P (units s ! h)" by blast
      with 2(2) have "targetWorkerId t \<noteq> Some []" by simp
      with 2(3) qs show ?thesis by blast
    qed
  qed
  have u: "\<forall>u\<in>set (units (onmessage h m s)). ?P u"
  proof -
    from onmessage_shape [of h m s]
    consider "units (onmessage h m s) = units s"
      | "units (onmessage h m s) = (units s)[h := (units s ! h)\<lparr>pipeline := Completed\<rparr>]"
      by blast
    then show ?thesis
    proof cases
      case 1
      with us show ?thesis by simp
    next
      case 2
      have "set ((units s)[h := (units s ! h)\<lparr>pipeline := Completed\<rparr>]) \<subseteq>
          insert ((units s ! h)\<lparr>pipeline := Completed\<rparr>) (set (units s))"
        by (rule set_update_subset_insert)
      with us 2 show ?thesis by auto
    qed
  qed
  from q u show ?thesis by (simp add: queue_wf_def list_all_iff)
qed

lemma queue_wf_step: "queue_wf s \<Longrightarrow> queue_wf (step e s)"
proof (cases e)
  case (Reserve draws)
  assume "queue_wf s"
  then show ?thesis
    by (auto simp: Reserve reserve_eq queue_wf_def list_all_iff new_unit_def split_def)
next
  case (Schedule ep a target draws)
  assume "queue_wf s"
  then show ?thesis by (simp add: Schedule queue_wf_schedule)
next
  case (OnMessage h m)
  assume "queue_wf s"
  then show ?thesis by (simp add: OnMessage queue_wf_onmessage)
next
  case Terminate
  assume "queue_wf s"
  then show ?thesis by (simp add: Terminate terminate_def queue_wf_def)
qed

lemma queue_wf_run: "queue_wf s \<Longrightarrow> queue_wf (run es s)"
  by (induction es arbitrary: s) (simp_all add: queue_wf_step)

lemma reachable_queue_wf:
  "\<forall>t\<in>set (tasksQueue (run es (init hc env))). targetWorkerId t \<noteq> Some []"
proof -
  have "queue_wf (init hc env)" by (simp add: queue_wf_def init_def)
  then have "queue_wf (run es (init hc env))" by (rule queue_wf_run)
  then show ?thesis by (simp add: queue_wf_def list_all_iff)
qed

lemma set_alist_update: "set (AList.update k v al) \<subseteq> insert (k, v) (set al)"
  by (induction al) auto

lemma handles_inv_iff:
  "handles_inv s \<longleftrightarrow>
     (\<forall>(w, h)\<in>set (workers s). h < length (units s) \<and> pipeline (units s ! h) = Completed \<and>
        workerId (units s ! h) = w)"
  by (simp add: handles_inv_def list_all_iff)

lemma handles_inv_append:
  assumes "handles_inv s" and "workers s' = workers s" and "units s' = units s @ us"
  shows "handles_inv s'"
  using assms by (auto simp: handles_inv_iff nth_append)

lemma handles_schedule:
  assumes "handles_inv s"
  shows "handles_inv (snd (schedule ep a target draws s))"
proof -
  obtain rt rw ri where d: "draws = (rt, rw, ri)" by (cases draws)
  let ?s' = "snd (schedule ep a target (rt, rw, ri) s)"
  from schedule_shape [of ep a target rt rw ri s]
  have "workers ?s' = workers s" and "\<exists>us. units ?s' = units s @ us" by auto
  with assms show ?thesis
    unfolding d using handles_inv_append by blast
qed

lemma handles_onmessage:
  assumes "handles_inv s"
  shows "handles_inv (onmessage h m s)"
proof -
  from onmessage_shape [of h m s]
  consider (same) "units (onmessage h m s) = units s" "workers (onmessage h m s) = workers s"
    | (reg) k where "h < length (units s)" "pipeline (units s ! h) = Waiting k"
        "units (onmessage h m s) = (units s)[h := (units s ! h)\<lparr>pipeline := Completed\<rparr>]"
        "workers (onmessage h m s) = AList.update (workerId (units s ! h)) h (workers s)"
    by blast
  then show ?thesis
  proof cases
    case same
    with assms show ?thesis by (simp add: handles_inv_iff)
  next
    case reg
    show ?thesis
      unfolding handles_inv_iff
    proof (intro ballI, clarify)
      fix w' h'
      assume "(w', h') \<in> set (workers (onmessage h m s))"
      with reg(4) set_alist_update [of "workerId (units s ! h)" h "workers s"]
      consider "(w', h') = (workerId (units s ! h), h)" | "(w', h') \<in> set (workers s)"
        by auto
      then show "h' < length (units (onmessage h m s)) \<and>
          pipeline (units (onmessage h m s) ! h') = Completed \<and>
          workerId (units (onmessage h m s) ! h') = w'"
      proof cases
        case 1
        with reg show ?thesis by simp
      next
        case 2
        with assms have old: "h' < length (units s)" "pipeline (units s ! h') = Completed"
          "workerId (units s ! h') = w'"
          by (auto simp: handles_inv_iff)
        with reg(2) have "h' \<noteq> h" by auto
        with old reg(3) show ?thesis by simp
      qed
    qed
  qed
qed

lemma handles_step: "handles_inv s \<Longrightarrow> handles_inv (step e s)"
proof (cases e)
  case (Reserve draws)
  assume "handles_inv s"
  then show ?thesis
    using handles_inv_append [of s "reserve draws s"] by (simp add: Reserve reserve_eq)
next
  case (Schedule ep a target draws)
  assume "handles_inv s"
  then show ?thesis by (simp add: Schedule handles_schedule)
next
  case (OnMessage h m)
  assume "handles_inv s"
  then show ?thesis by (simp add: OnMessage handles_onmessage)
next
  case Terminate
  assume "handles_inv s"
  then show ?thesis by (simp add: Terminate terminate_def handles_inv_def)
qed

lemma handles_run: "handles_inv s \<Longrightarrow> handles_inv (run es s)"
  by (induction es arbitrary: s) (simp_all add: handles_step)

lemma reachable_handles:
  assumes "map_of (workers (run es (init hc env))) w = Some h"
  shows "h < length (units (run es (init hc env))) \<and>
         pipeline (units (run es (init hc env)) ! h) = Completed \<and>
         workerId (units (run es (init hc env)) ! h) = w"
proof -
  have "handles_inv (init hc env)" by (simp add: handles_inv_def init_def)
  then have "handles_inv (run es (init hc env))" by (rule handles_run)
  moreover from assms have "(w, h) \<in> set (workers (run es (init hc env)))"
    by (rule map_of_SomeD)
  ultimately show ?thesis by (auto simp: handles_inv_iff)
qed

subsection \<open>Messages of a worker and task channels\<close>

lemma ctx_message_not_Exit: "mtype (ctx_message d c) \<noteq> Exit"
  by (cases c) (simp_all add: ctx_message_def)

lemma filter_ctx_Exit [simp]:
  "filter (\<lambda>m. mtype m = Exit) (map (ctx_message d) cs) = []"
  by (simp add: filter_empty_conv ctx_message_not_Exit)


lemma getTaskChannel_Nil [simp]: "getTaskChannel tid [] = []"
  by (simp add: getTaskChannel_def)

lemma getTaskChannel_Cons:
  "getTaskChannel tid (m # ms) =
     (if data_taskId m = tid then (if mtype m \<noteq> Exit then m # getTaskChannel tid ms else [m])
      else getTaskChannel tid ms)"
  by (simp add: getTaskChannel_def)

lemma getTaskChannel_upto:
  "getTaskChannel tid ms = filter (\<lambda>m. data_taskId m = tid) (upto_first_exit tid ms)"
  by (induction ms) (auto simp: getTaskChannel_Cons)

lemma getTaskChannel_tail:
  "\<exists>m\<in>set ms. mtype m = Exit \<and> data_taskId m = tid \<Longrightarrow>
     \<exists>pre e. getTaskChannel tid ms = pre @ [e] \<and> mtype e = Exit \<and>
        (\<forall>m\<in>set pre. mtype m \<noteq> Exit)"
proof (induction ms)
  case Nil
  then show ?case by simp
next
  case (Cons m ms)
  show ?case
  proof (cases "data_taskId m = tid")
    case False
    with Cons show ?thesis by (auto simp: getTaskChannel_Cons)
  next
    case True
    show ?thesis
    proof (cases "mtype m = Exit")
      case True
      with \<open>data_taskId m = tid\<close> have "getTaskChannel tid (m # ms) = [] @ [m]"
        by (simp add: getTaskChannel_Cons)
      with True show ?thesis by (metis empty_iff list.set(1))
    next
      case False
      with Cons obtain pre e where "getTaskChannel tid ms = pre @ [e]" "mtype e = Exit"
        "\<forall>m\<in>set pre. mtype m \<noteq> Exit" by auto
      with False \<open>data_taskId m = tid\<close>
      have "getTaskChannel tid (m # ms) = (m # pre) @ [e] \<and> mtype e = Exit \<and>
        (\<forall>x\<in>set (m # pre). mtype x \<noteq> Exit)"
        by (simp add: getTaskChannel_Cons)
      then show ?thesis by blast
    qed
  qed
qed

lemma getTaskChannel_exits: "length (filter (\<lambda>m. mtype m = Exit) (getTaskChannel tid ms)) \<le> 1"
  by (induction ms) (auto simp: getTaskChannel_Cons)


subsection \<open>Installed units keep their own entry\<close>

text \<open>
  The workers map is updated only when a unit completes its installation pipeline, under
  the id of that unit. While no two units bear the same id, no entry is replaced.
\<close>

lemma own_handle_nth:
  "own_handle s \<longleftrightarrow>
     (\<forall>h<length (units s). pipeline (units s ! h) = Completed \<longrightarrow>
        map_of (workers s) (workerId (units s ! h)) = Some h)"
  by (auto simp: own_handle_def list_all_iff)

lemma step_keeps_completed:
  assumes h: "h < length (units s)" and c: "pipeline (units s ! h) = Completed"
  shows "pipeline (units (step e s) ! h) = Completed"
proof (cases e)
  case (Reserve draws)
  with h c show ?thesis by (simp add: reserve_eq nth_append)
next
  case (Schedule ep a target draws)
  obtain rt rw ri where d: "draws = (rt, rw, ri)" by (cases draws)
  from schedule_shape [of ep a target rt rw ri s] h c show ?thesis
    by (auto simp: Schedule d nth_append)
next
  case (OnMessage h' m)
  from onmessage_shape [of h' m s] h c show ?thesis
    by (auto simp: OnMessage nth_list_update)
next
  case Terminate
  with c show ?thesis by (simp add: terminate_def)
qed

lemma step_length_units: "length (units s) \<le> length (units (step e s))"
proof -
  from ids_step [of e s] obtain xs where
    "map workerId (units (step e s)) = map workerId (units s) @ xs" by blast
  then have "length (units (step e s)) = length (units s) + length xs"
    by (metis length_append length_map)
  then show ?thesis by simp
qed

lemma run_keeps_completed:
  assumes "h < length (units s)" and "pipeline (units s ! h) = Completed"
  shows "pipeline (units (run es s) ! h) = Completed"
  using assms
proof (induction es arbitrary: s)
  case Nil
  then show ?case by simp
next
  case (Cons e es)
  from Cons.prems step_length_units [of s e] have "h < length (units (step e s))" by simp
  moreover from Cons.prems have "pipeline (units (step e s) ! h) = Completed"
    by (rule step_keeps_completed)
  ultimately show ?case using Cons.IH by simp
qed

lemma distinct_ids_before:
  assumes "distinct (map workerId (units (run es s)))"
  shows "distinct (map workerId (units s))"
proof -
  from ids_run [of es s] obtain xs where
    "map workerId (units (run es s)) = map workerId (units s) @ xs" by blast
  with assms show ?thesis by simp
qed

lemma own_handle_onmessage:
  assumes inv: "own_handle s" and d: "distinct (map workerId (units s))"
  shows "own_handle (onmessage h' m s)"
proof -
  from onmessage_shape [of h' m s]
  consider (same) "units (onmessage h' m s) = units s" "workers (onmessage h' m s) = workers s"
    | (reg) "h' < length (units s)"
        "units (onmessage h' m s) = (units s)[h' := (units s ! h')\<lparr>pipeline := Completed\<rparr>]"
        "workers (onmessage h' m s) = AList.update (workerId (units s ! h')) h' (workers s)"
    by blast
  then show ?thesis
  proof cases
    case same
    with inv show ?thesis by (simp add: own_handle_nth)
  next
    case reg
    show ?thesis
      unfolding own_handle_nth
    proof (intro allI impI)
      fix h
      assume h: "h < length (units (onmessage h' m s))"
        and c: "pipeline (units (onmessage h' m s) ! h) = Completed"
      show "map_of (workers (onmessage h' m s)) (workerId (units (onmessage h' m s) ! h)) =
          Some h"
      proof (cases "h = h'")
        case True
        with reg show ?thesis by (simp add: update_conv')
      next
        case False
        with h c reg have hs: "h < length (units s)" "pipeline (units s ! h) = Completed"
          by auto
        with inv have own: "map_of (workers s) (workerId (units s ! h)) = Some h"
          by (simp add: own_handle_nth)
        from d hs(1) reg(1) False have "workerId (units s ! h) \<noteq> workerId (units s ! h')"
          by (simp add: distinct_conv_nth)
        with False reg own show ?thesis by (simp add: update_conv')
      qed
    qed
  qed
qed

lemma own_handle_append:
  assumes inv: "own_handle s" and u: "units s' = units s @ vs" and w: "workers s' = workers s"
      and vs: "\<forall>v\<in>set vs. pipeline v \<noteq> Completed"
  shows "own_handle s'"
  unfolding own_handle_nth
proof (intro allI impI)
  fix h
  assume h: "h < length (units s')" and c: "pipeline (units s' ! h) = Completed"
  have "h < length (units s)"
  proof (rule ccontr)
    assume "\<not> h < length (units s)"
    with h u have "units s' ! h \<in> set vs" by (simp add: nth_append)
    with vs c show False by blast
  qed
  with inv u w c show "map_of (workers s') (workerId (units s' ! h)) = Some h"
    by (simp add: own_handle_nth nth_append)
qed

lemma own_handle_step:
  assumes inv: "own_handle s" and d: "distinct (map workerId (units s))"
  shows "own_handle (step e s)"
proof (cases e)
  case (Reserve draws)
  have "units (reserve draws s) =
      units s @ map (\<lambda>(rw, ri). new_unit rw ri (Waiting ForkJoin)) draws"
    "workers (reserve draws s) = workers s"
    by (simp_all add: reserve_eq)
  moreover have "\<forall>v\<in>set (map (\<lambda>(rw, ri). new_unit rw ri (Waiting ForkJoin)) draws).
      pipeline v \<noteq> Completed"
    by (auto simp: new_unit_def)
  ultimately have "own_handle (reserve draws s)" by (rule own_handle_append [OF inv])
  then show ?thesis by (simp add: Reserve)
next
  case (Schedule ep a target draws)
  obtain rt rw ri where dr: "draws = (rt, rw, ri)" by (cases draws)
  let ?s' = "snd (schedule ep a target (rt, rw, ri) s)"
  from schedule_shape [of ep a target rt rw ri s]
  have w: "workers ?s' = workers s"
    and u: "units ?s' = units s \<or> (\<exists>k. units ?s' = units s @ [new_unit rw ri (Waiting k)])"
    by blast+
  from u have "own_handle ?s'"
  proof
    assume "units ?s' = units s"
    then have "units ?s' = units s @ []" by simp
    from inv this w show ?thesis by (rule own_handle_append) simp
  next
    assume "\<exists>k. units ?s' = units s @ [new_unit rw ri (Waiting k)]"
    then obtain k where k: "units ?s' = units s @ [new_unit rw ri (Waiting k)]" by blast
    from inv k w show ?thesis by (rule own_handle_append) (simp add: new_unit_def)
  qed
  then show ?thesis by (simp add: Schedule dr)
next
  case (OnMessage h' m)
  with inv d show ?thesis by (simp add: own_handle_onmessage)
next
  case Terminate
  have "units (terminate s) = units s @ []" "workers (terminate s) = workers s"
    by (simp_all add: terminate_def)
  with inv have "own_handle (terminate s)" by (rule own_handle_append) simp
  then show ?thesis by (simp add: Terminate)
qed

lemma own_handle_run:
  assumes "own_handle s" and "distinct (map workerId (units (run es s)))"
  shows "own_handle (run es s)"
  using assms
proof (induction es arbitrary: s)
  case Nil
  then show ?case by simp
next
  case (Cons e es)
  from Cons.prems(2) have d1: "distinct (map workerId (units (run es (step e s))))" by simp
  then have "distinct (map workerId (units (step e s)))" by (rule distinct_ids_before)
  then have "distinct (map workerId (units s))"
    using distinct_ids_before [of "[e]" s] by simp
  with Cons.prems(1) have "own_handle (step e s)" by (rule own_handle_step)
  from Cons.IH [OF this d1] show ?case by simp
qed

lemma reserve_registers_own:
  assumes reach: "s = run es0 (init hc env)"
      and d: "distinct (map workerId (units (run es (reserve draws s))))"
  shows "(\<forall>w h. map_of (workers s) w = Some h \<longrightarrow>
            map_of (workers (run es (reserve draws s))) w = Some h) \<and>
         (\<forall>i<length draws.
            pipeline (units (run es (reserve draws s)) ! (length (units s) + i)) = Completed \<longrightarrow>
            map_of (workers (run es (reserve draws s))) (worker_id (fst (draws ! i))) =
              Some (length (units s) + i))"
proof -
  let ?r = "reserve draws s"
  let ?S = "run es ?r"
  have r: "?r = step (Reserve draws) s" by simp
  from d have dr: "distinct (map workerId (units ?r))" by (rule distinct_ids_before)
  then have ds: "distinct (map workerId (units s))"
    using distinct_ids_before [of "[Reserve draws]" s] by simp
  have "own_handle (init hc env)" by (simp add: own_handle_nth init_def)
  from this ds [unfolded reach] have "own_handle s" unfolding reach by (rule own_handle_run)
  from this ds have "own_handle ?r" unfolding r by (rule own_handle_step)
  from this d have own: "own_handle ?S" by (rule own_handle_run)
  have old: "map_of (workers ?S) w = Some h" if w: "map_of (workers s) w = Some h" for w h
  proof -
    from w have u: "h < length (units s)" "pipeline (units s ! h) = Completed"
      "workerId (units s ! h) = w"
      unfolding reach by (simp_all add: reachable_handles)
    note keep = run_keeps_id [OF u(1), of "Reserve draws # es", unfolded run_Cons step.simps]
    from keep have hS: "h < length (units ?S)" by (rule conjunct1)
    from keep have "workerId (units ?S ! h) = workerId (units s ! h)" by (rule conjunct2)
    from this u(3) have idS: "workerId (units ?S ! h) = w" by (rule trans)
    note run_keeps_completed [OF u(1) u(2), of "Reserve draws # es",
        unfolded run_Cons step.simps]
    with own hS have "map_of (workers ?S) (workerId (units ?S ! h)) = Some h"
      unfolding own_handle_nth by blast
    then show ?thesis unfolding idS .
  qed
  have new: "map_of (workers ?S) (worker_id (fst (draws ! i))) = Some (length (units s) + i)"
    if i: "i < length draws"
      and c: "pipeline (units ?S ! (length (units s) + i)) = Completed" for i
  proof -
    let ?j = "length (units s) + i"
    have j: "?j < length (units ?r)" using i by (simp add: reserve_eq)
    have id0: "workerId (units ?r ! ?j) = worker_id (fst (draws ! i))"
      using i by (simp add: reserve_eq nth_append new_unit_def split_def)
    note keep = run_keeps_id [OF j, of es]
    from keep have jS: "?j < length (units ?S)" by (rule conjunct1)
    from keep have "workerId (units ?S ! ?j) = workerId (units ?r ! ?j)" by (rule conjunct2)
    with id0 have idS: "workerId (units ?S ! ?j) = worker_id (fst (draws ! i))" by simp
    from own jS c have "map_of (workers ?S) (workerId (units ?S ! ?j)) = Some ?j"
      unfolding own_handle_nth by blast
    then show ?thesis unfolding idS .
  qed
  from old new show ?thesis by blast
qed

subsection \<open>The subscriber of workerReleased$ stays subscribed\<close>

text \<open>
  \<^verbatim>\<open>pickTask\<close> throws only for a worker id that is not a key of the workers map. The ids
  it is called with are keys of the map, unless \<^verbatim>\<open>schedule\<close> was given a target that the
  workers object inherits from \<^verbatim>\<open>Object.prototype\<close>. So in a run without such a call the
  subscriber of \<^verbatim>\<open>workerReleased$\<close> never throws and stays subscribed.
\<close>

lemma live_inv_iff:
  "live_inv s \<longleftrightarrow>
     releaseSubscribed s \<and> snd ` set (exitSubs s) \<subseteq> fst ` set (workers s)"
  by (force simp: live_inv_def list_all_iff)

lemma live_inv_mono:
  assumes "live_inv s" and "releaseSubscribed s' = releaseSubscribed s"
      and "set (exitSubs s') \<subseteq> set (exitSubs s)"
      and "fst ` set (workers s) \<subseteq> fst ` set (workers s')"
  shows "live_inv s'"
  using assms unfolding live_inv_iff by blast

lemma pickTask_live_inv:
  assumes reg: "w \<in> fst ` set (workers s)" and inv: "live_inv s"
  shows "fst (pickTask w s) = None \<and> live_inv (snd (pickTask w s))"
proof (cases "filter (eligible w) (tasksQueue s) = []")
  case True
  with inv show ?thesis by (simp add: pickTask_none)
next
  case False
  from find_total [OF False] obtain t where t: "find (find_pred w) (tasksQueue s) = Some t"
    by blast
  from reg obtain h where h: "map_of (workers s) w = Some h"
    by (metis map_of_eq_None_iff not_None_eq)
  note pk = pickTask_picked [OF False t h]
  from inv reg show ?thesis unfolding pk live_inv_iff by auto
qed

lemma workerReleased_live_inv:
  assumes reg: "w \<in> fst ` set (workers s)" and inv: "live_inv s"
  shows "live_inv (workerReleased w t s)"
proof -
  let ?s0 = "s\<lparr>busyWorkers := filter (\<lambda>wId. wId \<noteq> w) (busyWorkers s),
            runningTasks := filter (\<lambda>(w', t'). t' \<noteq> t) (runningTasks s)\<rparr>"
  from inv have inv0: "live_inv ?s0" by (rule live_inv_mono) simp_all
  from reg have reg0: "w \<in> fst ` set (workers ?s0)" by simp
  from pickTask_live_inv [OF reg0 inv0]
  have e: "fst (pickTask w ?s0) = None" and l: "live_inv (snd (pickTask w ?s0))" by simp_all
  from e have "pickTask w ?s0 = (None, snd (pickTask w ?s0))"
    by (metis prod.collapse)
  moreover from inv have "releaseSubscribed s" by (simp add: live_inv_iff)
  ultimately have "workerReleased w t s = snd (pickTask w ?s0)"
    by (rule workerReleased_live [rotated])
  with l show ?thesis by simp
qed

lemma deliver_live_inv:
  assumes "live_inv s" and "snd ` set subs \<subseteq> fst ` set (workers s)"
  shows "live_inv (deliver t subs s)"
  using assms
proof (induction subs arbitrary: s)
  case Nil
  then show ?case by simp
next
  case (Cons p subs)
  obtain t' w where p: "p = (t', w)" by (cases p)
  let ?s1 = "workerReleased w t s"
  let ?s' = "if t' = t then ?s1\<lparr>exitSubs := remove1 (t', w) (exitSubs ?s1)\<rparr> else s"
  have inv': "live_inv ?s'"
  proof (cases "t' = t")
    case True
    from Cons.prems p have "w \<in> fst ` set (workers s)" by auto
    from this Cons.prems(1) have "live_inv ?s1" by (rule workerReleased_live_inv)
    then have "live_inv (?s1\<lparr>exitSubs := remove1 (t', w) (exitSubs ?s1)\<rparr>)"
      by (rule live_inv_mono) (simp_all add: set_remove1_subset)
    with True show ?thesis by simp
  next
    case False
    with Cons.prems(1) show ?thesis by simp
  qed
  have w': "workers ?s' = workers s" by simp
  from Cons.prems(2) have "snd ` set subs \<subseteq> fst ` set (workers ?s')"
    unfolding w' by auto
  from Cons.IH [OF inv' this] show ?case by (cases "t' = t") (simp_all add: p Let_def)
qed

lemma workerChannel_next_live_inv:
  assumes inv: "live_inv s"
  shows "live_inv (workerChannel_next h m s)"
proof (cases "pipeline (units s ! h)")
  case Unsubscribed
  with inv show ?thesis by (simp add: workerChannel_next_def Let_def)
next
  case Completed
  with inv show ?thesis by (simp add: workerChannel_next_def Let_def)
next
  case (Waiting k)
  show ?thesis
  proof (cases "mtype m = Exit")
    case False
    with inv Waiting show ?thesis by (simp add: workerChannel_next_def Let_def)
  next
    case True
    let ?u = "units s ! h"
    let ?s1 = "s\<lparr>units := (units s)[h := ?u\<lparr>pipeline := Completed\<rparr>],
                 workers := AList.update (workerId ?u) h (workers s)\<rparr>"
    from inv have inv1: "live_inv ?s1"
      by (rule live_inv_mono) (auto simp: keys_update)
    show ?thesis
    proof (cases k)
      case ForkJoin
      with inv1 Waiting True show ?thesis by (simp add: workerChannel_next_def Let_def)
    next
      case (Dispatch q)
      from inv1 have invp: "live_inv (push q ?s1)" by (rule live_inv_mono) (simp_all add: push_def)
      have "workerId ?u \<in> fst ` set (workers (push q ?s1))" by (simp add: keys_update)
      from pickTask_live_inv [OF this invp]
      have "live_inv (snd (pickTask (workerId ?u) (push q ?s1)))" by simp
      with Waiting True Dispatch show ?thesis by (simp add: workerChannel_next_def Let_def)
    qed
  qed
qed

lemma onmessage_live_inv:
  assumes inv: "live_inv s"
  shows "live_inv (onmessage h m s)"
proof -
  let ?s1 = "workerChannel_next h m s"
  from inv have inv1: "live_inv ?s1" by (rule workerChannel_next_live_inv)
  then have "snd ` set (exitSubs ?s1) \<subseteq> fst ` set (workers ?s1)" by (simp add: live_inv_iff)
  with inv1 have "live_inv (deliver (data_taskId m) (exitSubs ?s1) ?s1)"
    by (rule deliver_live_inv)
  with inv inv1 show ?thesis by (simp add: onmessage_def mergedChannel_next_def)
qed

lemma subscribe_releaseSubscribed [simp]:
  "releaseSubscribed (subscribe h k s) = releaseSubscribed s"
  by (simp add: subscribe_def)

lemma schedule_live_inv:
  assumes inv: "live_inv s" and plain: "plain_target (Schedule ep a target draws)"
  shows "live_inv (snd (schedule ep a target draws s))"
proof -
  obtain rt rw ri where d: "draws = (rt, rw, ri)" by (cases draws)
  show ?thesis
  proof (cases "truthy_id target")
    case (Some tw)
    then have tgt: "target = Some tw" by (auto simp: truthy_id_def split: option.splits if_splits)
    with plain have notin: "tw \<notin> set Object_prototype_names" by simp
    let ?q = "\<lparr>taskId = task_id rt, targetWorkerId = Some tw, args = a, entryPoint = ep\<rparr>"
    show ?thesis
    proof (cases "map_of (workers s) tw")
      case None
      with notin have "get_property (workers s) tw = Absent" by (simp add: get_property_def)
      with Some inv show ?thesis by (simp add: schedule_def d)
    next
      case (Some h)
      then have own: "get_property (workers s) tw = Own h" by (simp add: get_property_def)
      from inv have invp: "live_inv (push ?q s)" by (rule live_inv_mono) (simp_all add: push_def)
      from map_of_SomeD [OF Some] have "fst (tw, h) \<in> fst ` set (workers s)"
        by (rule imageI)
      then have "tw \<in> fst ` set (workers (push ?q s))" by simp
      from pickTask_live_inv [OF this invp] have "live_inv (snd (pickTask tw (push ?q s)))"
        by simp
      with invp own \<open>truthy_id target = Some tw\<close> show ?thesis
        by (simp add: schedule_def d Let_def)
    qed
  next
    case None
    let ?q = "\<lparr>taskId = task_id rt, targetWorkerId = None, args = a, entryPoint = ep\<rparr>"
    obtain src s1 where g: "getIdleWorkerOrCreate rw ri s = (src, s1)"
      by (cases "getIdleWorkerOrCreate rw ri s")
    have "s1 = s \<or> s1 = snd (createWorker rw ri s)"
      using g
      by (auto simp: getIdleWorkerOrCreate_def Let_def split: option.splits if_splits prod.splits)
    then have inv1: "live_inv s1"
    proof
      assume "s1 = s"
      with inv show ?thesis by simp
    next
      assume c: "s1 = snd (createWorker rw ri s)"
      from inv show ?thesis unfolding c by (rule live_inv_mono) (simp_all add: createWorker_eq)
    qed
    have idle: "w \<in> fst ` set (workers s1)" if "src = IdleWorker w" for w
    proof -
      from g that have "find (\<lambda>w. w \<notin> set (busyWorkers s)) (map fst (workers s)) = Some w \<and>
          s1 = s"
        by (auto simp: getIdleWorkerOrCreate_def Let_def split: option.splits if_splits prod.splits)
      then have "w \<in> set (map fst (workers s))" and "s1 = s"
        by (auto dest: find_Some_mem)
      then show ?thesis by simp
    qed
    from inv1 have invp: "live_inv (push ?q s1)" by (rule live_inv_mono) (simp_all add: push_def)
    show ?thesis
    proof (cases src)
      case (IdleWorker w)
      with idle have "w \<in> fst ` set (workers (push ?q s1))" by simp
      from pickTask_live_inv [OF this invp] have "live_inv (snd (pickTask w (push ?q s1)))"
        by simp
      with None g IdleWorker show ?thesis by (simp add: schedule_def d)
    next
      case (NewWorker h)
      from inv1 have "live_inv (subscribe h (Dispatch ?q) s1)"
        by (rule live_inv_mono) simp_all
      with None g NewWorker show ?thesis by (simp add: schedule_def d)
    next
      case NoWorker
      with None g invp show ?thesis by (simp add: schedule_def d)
    qed
  qed
qed

lemma step_live_inv:
  assumes "live_inv s" and "plain_target e"
  shows "live_inv (step e s)"
proof (cases e)
  case (Reserve draws)
  from assms(1) have "live_inv (reserve draws s)"
    by (rule live_inv_mono) (simp_all add: reserve_eq)
  then show ?thesis by (simp add: Reserve)
next
  case (Schedule ep a target draws)
  with assms show ?thesis by (simp add: schedule_live_inv)
next
  case (OnMessage h m)
  with assms show ?thesis by (simp add: onmessage_live_inv)
next
  case Terminate
  from assms(1) have "live_inv (terminate s)"
    by (rule live_inv_mono) (simp_all add: terminate_def)
  then show ?thesis by (simp add: Terminate)
qed

lemma run_live_inv:
  assumes "live_inv s" and "list_all plain_target es"
  shows "live_inv (run es s)"
  using assms by (induction es arbitrary: s) (simp_all add: step_live_inv)

lemma plain_runs_stay_subscribed:
  assumes "list_all plain_target es"
  shows "releaseSubscribed (run es (init hc env))"
proof -
  have "live_inv (init hc env)" by (simp add: live_inv_def init_def)
  from this assms have "live_inv (run es (init hc env))" by (rule run_live_inv)
  then show ?thesis by (simp add: live_inv_iff)
qed

section \<open>Capacity of the pool\<close>

lemma schedule_at_capacity:
  assumes "truthy_id target = None" and "poolSize s \<le> int (length (workers s))"
  shows "units (snd (schedule ep a target draws s)) = units s"
    and "set (map fst (workers s)) \<subseteq> set (busyWorkers s) \<Longrightarrow>
         schedule ep a target draws s =
           (None, push \<lparr>taskId = task_id (fst draws), targetWorkerId = None, args = a,
                        entryPoint = ep\<rparr> s)"
    and "find (\<lambda>w. w \<notin> set (busyWorkers s)) (map fst (workers s)) = Some w \<Longrightarrow> w \<noteq> [] \<Longrightarrow>
         schedule ep a target draws s =
           (None, snd (pickTask w
              (push \<lparr>taskId = task_id (fst draws), targetWorkerId = None, args = a,
                      entryPoint = ep\<rparr> s)))"
proof -
  obtain rt rw ri where d: "draws = (rt, rw, ri)" by (cases draws)
  show "find (\<lambda>w. w \<notin> set (busyWorkers s)) (map fst (workers s)) = Some w \<Longrightarrow> w \<noteq> [] \<Longrightarrow>
         schedule ep a target draws s =
           (None, snd (pickTask w
              (push \<lparr>taskId = task_id (fst draws), targetWorkerId = None, args = a,
                      entryPoint = ep\<rparr> s)))"
    using assms(1) by (simp add: d schedule_def getIdleWorkerOrCreate_def Let_def)
  show "units (snd (schedule ep a target draws s)) = units s"
    using assms
    by (auto simp: d schedule_def getIdleWorkerOrCreate_def Let_def split: option.splits)
  assume busy: "set (map fst (workers s)) \<subseteq> set (busyWorkers s)"
  then have "find (\<lambda>w. w \<notin> set (busyWorkers s)) (map fst (workers s)) = None"
    by (auto simp: find_None_iff)
  with assms show "schedule ep a target draws s =
           (None, push \<lparr>taskId = task_id (fst draws), targetWorkerId = None, args = a,
                        entryPoint = ep\<rparr> s)"
    by (simp add: d schedule_def getIdleWorkerOrCreate_def Let_def)
qed

text \<open>
  Claim C1, amended. In a run from the constructor in which \<^verbatim>\<open>schedule\<close> is never called
  while a unit is being installed, \<^verbatim>\<open>reserve\<close> never asks for more than the capacity
  left, and no worker id is drawn twice, the number of units created never exceeds the
  capacity (or 0, if the capacity is negative). In any state where the workers map has at
  least \<open>poolSize\<close> keys, scheduling an unpinned task creates no unit: it appends the
  task to the queue, and then runs \<^verbatim>\<open>pickTask\<close> on the first idle worker if there is one.
\<close>

theorem capacity_respected:
  "(run_ok es (init hc env) \<longrightarrow>
      int (length (units (run es (init hc env)))) \<le> max 0 (int hc - 2)) \<and>
   (truthy_id target = None \<and> poolSize s \<le> int (length (workers s)) \<longrightarrow>
      units (snd (schedule ep a target draws s)) = units s \<and>
      (set (map fst (workers s)) \<subseteq> set (busyWorkers s) \<longrightarrow>
         schedule ep a target draws s =
           (None, push \<lparr>taskId = task_id (fst draws), targetWorkerId = None, args = a,
                        entryPoint = ep\<rparr> s)) \<and>
      (find (\<lambda>w. w \<notin> set (busyWorkers s)) (map fst (workers s)) = Some w \<and> w \<noteq> [] \<longrightarrow>
         schedule ep a target draws s =
           (None, snd (pickTask w
              (push \<lparr>taskId = task_id (fst draws), targetWorkerId = None, args = a,
                      entryPoint = ep\<rparr> s)))))"
proof (intro conjI impI)
  assume "run_ok es (init hc env)"
  from capacity_run [OF this capacity_init]
  have "int (length (units (run es (init hc env)))) \<le> max 0 (poolSize (run es (init hc env)))"
    by (simp add: capacity_inv_def)
  then show "int (length (units (run es (init hc env)))) \<le> max 0 (int hc - 2)"
    by (simp add: run_poolSize init_def)
next
  assume a: "truthy_id target = None \<and> poolSize s \<le> int (length (workers s))"
  then show "units (snd (schedule ep a target draws s)) = units s"
    by (simp add: schedule_at_capacity(1))
  assume "set (map fst (workers s)) \<subseteq> set (busyWorkers s)"
  with a show "schedule ep a target draws s =
           (None, push \<lparr>taskId = task_id (fst draws), targetWorkerId = None, args = a,
                        entryPoint = ep\<rparr> s)"
    by (simp add: schedule_at_capacity(2))
next
  assume a: "truthy_id target = None \<and> poolSize s \<le> int (length (workers s))"
    and "find (\<lambda>w. w \<notin> set (busyWorkers s)) (map fst (workers s)) = Some w \<and> w \<noteq> []"
  then show "schedule ep a target draws s =
           (None, snd (pickTask w
              (push \<lparr>taskId = task_id (fst draws), targetWorkerId = None, args = a,
                      entryPoint = ep\<rparr> s)))"
    by (simp add: schedule_at_capacity(3))
qed

theorem capacity_respected_witness:
  "run_ok (demo_capacity_events @ [Schedule ''C'' JsUndefined None (7, 8, 9)])
     (init 4 JsUndefined) \<and>
   length (units (run (demo_capacity_events @ [Schedule ''C'' JsUndefined None (7, 8, 9)])
     (init 4 JsUndefined))) = 2 \<and>
   int (length (units (run (demo_capacity_events @ [Schedule ''C'' JsUndefined None (7, 8, 9)])
     (init 4 JsUndefined)))) \<le> max 0 (int 4 - 2) \<and>
   poolSize (run demo_capacity_events (init 4 JsUndefined)) = 2 \<and>
   map fst (workers (run demo_capacity_events (init 4 JsUndefined))) = [''w2'', ''w5''] \<and>
   busyWorkers (run demo_capacity_events (init 4 JsUndefined)) = [''w2'', ''w5''] \<and>
   schedule ''C'' JsUndefined None (7, 8, 9) (run demo_capacity_events (init 4 JsUndefined)) =
     (None, push \<lparr>taskId = ''t7'', targetWorkerId = None, args = JsUndefined,
                  entryPoint = ''C''\<rparr> (run demo_capacity_events (init 4 JsUndefined))) \<and>
   poolSize demo_reserved = 1 \<and> map fst (workers demo_reserved) = [''w2''] \<and>
   busyWorkers demo_reserved = [] \<and>
   schedule ''D'' JsUndefined None (5, 8, 9) demo_reserved =
     (None, snd (pickTask ''w2''
        (push \<lparr>taskId = ''t5'', targetWorkerId = None, args = JsUndefined,
                entryPoint = ''D''\<rparr> demo_reserved)))"
proof -
  let ?es = "demo_capacity_events @ [Schedule ''C'' JsUndefined None (7, 8, 9)]"
  let ?s = "run demo_capacity_events (init 4 JsUndefined)"
  have ok: "run_ok ?es (init 4 JsUndefined)" by code_simp
  have n: "length (units (run ?es (init 4 JsUndefined))) = 2" by code_simp
  have p: "poolSize ?s = 2" by code_simp
  have k: "map fst (workers ?s) = [''w2'', ''w5'']" by code_simp
  have b: "busyWorkers ?s = [''w2'', ''w5'']" by code_simp
  have t: "truthy_id None = None" by (simp add: truthy_id_def)
  have c: "poolSize ?s \<le> int (length (workers ?s))"
    by code_simp
  have sub: "set (map fst (workers ?s)) \<subseteq> set (busyWorkers ?s)" by (simp add: k b)
  have tid: "task_id 7 = ''t7''" by code_simp
  from capacity_respected [of ?es 4 JsUndefined None ?s "''C''" JsUndefined "(7, 8, 9)"] ok
  have bound: "int (length (units (run ?es (init 4 JsUndefined)))) \<le> max 0 (int 4 - 2)"
    by blast
  from capacity_respected [of ?es 4 JsUndefined None ?s "''C''" JsUndefined "(7, 8, 9)"] t c sub
  have "schedule ''C'' JsUndefined None (7, 8, 9) ?s =
     (None, push \<lparr>taskId = task_id (fst (7::nat, 8::nat, 9::nat)), targetWorkerId = None,
        args = JsUndefined, entryPoint = ''C''\<rparr> ?s)"
    by blast
  then have q: "schedule ''C'' JsUndefined None (7, 8, 9) ?s =
     (None, push \<lparr>taskId = ''t7'', targetWorkerId = None, args = JsUndefined,
                  entryPoint = ''C''\<rparr> ?s)"
    by (simp add: tid)
  have p': "poolSize demo_reserved = 1" by code_simp
  have k': "map fst (workers demo_reserved) = [''w2'']" by code_simp
  have b': "busyWorkers demo_reserved = []" by code_simp
  have c': "poolSize demo_reserved \<le> int (length (workers demo_reserved))" by code_simp
  have i': "find (\<lambda>w. w \<notin> set (busyWorkers demo_reserved)) (map fst (workers demo_reserved)) =
      Some ''w2''"
    by (simp add: k' b')
  have tid': "task_id 5 = ''t5''" by code_simp
  from capacity_respected [of "[]" 4 JsUndefined None demo_reserved "''D''" JsUndefined
      "(5, 8, 9)" "''w2''"] t c' i'
  have "schedule ''D'' JsUndefined None (5, 8, 9) demo_reserved =
     (None, snd (pickTask ''w2''
        (push \<lparr>taskId = task_id (fst (5::nat, 8::nat, 9::nat)), targetWorkerId = None,
                args = JsUndefined, entryPoint = ''D''\<rparr> demo_reserved)))"
    by simp
  then have q': "schedule ''D'' JsUndefined None (5, 8, 9) demo_reserved =
     (None, snd (pickTask ''w2''
        (push \<lparr>taskId = ''t5'', targetWorkerId = None, args = JsUndefined,
                entryPoint = ''D''\<rparr> demo_reserved)))"
    by (simp add: tid')
  show ?thesis using ok n p k b q bound p' k' b' q' by simp
qed

text \<open>
  Claim C1 as stated fails. With capacity 1, \<^verbatim>\<open>reserve\<close> of two workers creates two
  units: it never looks at \<open>poolSize\<close>. And two unpinned tasks scheduled in a row
  create two units and queue nothing: the test in \<^verbatim>\<open>getIdleWorkerOrCreate$\<close> counts the
  keys of the workers map, where a unit appears only when its installation has exited.
\<close>

theorem capacity_exceeded_counterexample:
  "poolSize (init 3 JsUndefined) = 1 \<and>
   length (units (run [Reserve [(2, 3), (5, 6)]] (init 3 JsUndefined))) = 2 \<and>
   length (units (run [Schedule ''A'' JsUndefined None (1, 2, 3)] (init 3 JsUndefined))) = 1 \<and>
   length (units (run [Schedule ''A'' JsUndefined None (1, 2, 3),
                       Schedule ''B'' JsUndefined None (4, 5, 6)] (init 3 JsUndefined))) = 2 \<and>
   tasksQueue (run [Schedule ''A'' JsUndefined None (1, 2, 3),
                    Schedule ''B'' JsUndefined None (4, 5, 6)] (init 3 JsUndefined)) = []"
  by code_simp

section \<open>Dispatch\<close>

text \<open>
  Claim C2, amended. In every state that the pool reaches from its construction, and
  for a registered worker \<open>w\<close>: with no eligible task \<^verbatim>\<open>pickTask\<close> changes nothing;
  otherwise it picks the oldest eligible task (unpinned or pinned to \<open>w\<close>, never one
  pinned elsewhere), appends
  \<open>w\<close> to the busy workers, records (w, taskId), subscribes to the task's Exit, posts one
  Execute to the worker, and removes from the queue the entries with the picked id: the
  picked task alone when no other entry has its id.
\<close>

theorem pickTask_dispatch:
  assumes reach: "s = run es (init hc env)"
      and reg: "map_of (workers s) w = Some h"
  shows "(filter (eligible w) (tasksQueue s) = [] \<longrightarrow> pickTask w s = (None, s)) \<and>
         (\<forall>t rest. filter (eligible w) (tasksQueue s) = t # rest \<longrightarrow>
            (targetWorkerId t = None \<or> targetWorkerId t = Some w) \<and>
            pickTask w s =
              (None, s\<lparr>busyWorkers := busyWorkers s @ [w],
                       tasksQueue := filter (\<lambda>t'. taskId t' \<noteq> taskId t) (tasksQueue s),
                       runningTasks := runningTasks s @ [(w, taskId t)],
                       exitSubs := exitSubs s @ [(taskId t, w)],
                       posted := posted s @ [(h, execute_of w t)]\<rparr>) \<and>
            (filter (\<lambda>t'. taskId t' = taskId t) (tasksQueue s) = [t] \<longrightarrow>
               tasksQueue (snd (pickTask w s)) = remove1 t (tasksQueue s)))"
proof -
  have wf: "\<forall>t\<in>set (tasksQueue s). targetWorkerId t \<noteq> Some []"
    unfolding reach by (rule reachable_queue_wf)
  show ?thesis
  proof (intro conjI allI impI)
    assume "filter (eligible w) (tasksQueue s) = []"
    then show "pickTask w s = (None, s)" by (rule pickTask_none)
  next
    fix t rest
    assume el: "filter (eligible w) (tasksQueue s) = t # rest"
    then have "t \<in> set (filter (eligible w) (tasksQueue s))" by simp
    then have "eligible w t" by simp
    then show "targetWorkerId t = None \<or> targetWorkerId t = Some w"
      by (simp add: eligible_def)
  next
    fix t rest
    assume el: "filter (eligible w) (tasksQueue s) = t # rest"
    then have ne: "filter (eligible w) (tasksQueue s) \<noteq> []" by simp
    have f: "find (find_pred w) (tasksQueue s) = Some t"
      using find_oldest_eligible [OF wf, of w] el by simp
    show "pickTask w s =
                (None, s\<lparr>busyWorkers := busyWorkers s @ [w],
                         tasksQueue := filter (\<lambda>t'. taskId t' \<noteq> taskId t) (tasksQueue s),
                         runningTasks := runningTasks s @ [(w, taskId t)],
                         exitSubs := exitSubs s @ [(taskId t, w)],
                         posted := posted s @ [(h, execute_of w t)]\<rparr>)"
      by (rule pickTask_picked [OF ne f reg])
  next
    fix t rest
    assume el: "filter (eligible w) (tasksQueue s) = t # rest"
       and only: "filter (\<lambda>t'. taskId t' = taskId t) (tasksQueue s) = [t]"
    from el have ne: "filter (eligible w) (tasksQueue s) \<noteq> []" by simp
    have f: "find (find_pred w) (tasksQueue s) = Some t"
      using find_oldest_eligible [OF wf, of w] el by simp
    show "tasksQueue (snd (pickTask w s)) = remove1 t (tasksQueue s)"
      by (simp add: pickTask_picked [OF ne f reg] filter_only_remove1 [OF only])
  qed
qed

theorem pickTask_dispatch_witness:
  "map_of (workers demo_distinct) ''w2'' = Some 0 \<and>
   map targetWorkerId (tasksQueue demo_distinct) = [None, Some ''w2'', None] \<and>
   map entryPoint (tasksQueue demo_distinct) = [''B'', ''C'', ''D''] \<and>
   pickTask ''w2'' demo_distinct =
     (None, demo_distinct\<lparr>busyWorkers := busyWorkers demo_distinct @ [''w2''],
        tasksQueue := filter (\<lambda>t'. taskId t' \<noteq> ''t7'') (tasksQueue demo_distinct),
        runningTasks := runningTasks demo_distinct @ [(''w2'', ''t7'')],
        exitSubs := exitSubs demo_distinct @ [(''t7'', ''w2'')],
        posted := posted demo_distinct @
          [(0, \<lparr>exec_taskId = ''t7'', exec_workerId = ''w2'',
                 exec_entryPoint = ''return B'', exec_args = JsUndefined\<rparr>)]\<rparr>) \<and>
   map entryPoint (tasksQueue (snd (pickTask ''w2'' demo_distinct))) = [''C'', ''D''] \<and>
   map_of (workers demo_running) ''w2'' = Some 0 \<and>
   tasksQueue demo_running = [] \<and>
   pickTask ''w2'' demo_running = (None, demo_running)"
proof -
  let ?B = "\<lparr>taskId = ''t7'', targetWorkerId = None, args = JsUndefined, entryPoint = ''B''\<rparr>"
  let ?C = "\<lparr>taskId = ''t6'', targetWorkerId = Some ''w2'', args = JsUndefined,
             entryPoint = ''C''\<rparr>"
  let ?D = "\<lparr>taskId = ''t5'', targetWorkerId = None, args = JsUndefined, entryPoint = ''D''\<rparr>"
  have q: "tasksQueue demo_distinct = [?B, ?C, ?D]" by code_simp
  have reg: "map_of (workers demo_distinct) ''w2'' = Some 0" by code_simp
  have el: "filter (eligible ''w2'') (tasksQueue demo_distinct) = ?B # [?C, ?D]"
    by (simp add: q eligible_def)
  have only: "filter (\<lambda>t'. taskId t' = taskId ?B) (tasksQueue demo_distinct) = [?B]"
    by (simp add: q)
  have ex: "execute_of ''w2'' ?B =
      \<lparr>exec_taskId = ''t7'', exec_workerId = ''w2'', exec_entryPoint = ''return B'',
       exec_args = JsUndefined\<rparr>"
    by (simp add: execute_of_def)
  note a = pickTask_dispatch [OF demo_distinct_def reg]
  from a el have p: "pickTask ''w2'' demo_distinct =
     (None, demo_distinct\<lparr>busyWorkers := busyWorkers demo_distinct @ [''w2''],
        tasksQueue := filter (\<lambda>t'. taskId t' \<noteq> taskId ?B) (tasksQueue demo_distinct),
        runningTasks := runningTasks demo_distinct @ [(''w2'', taskId ?B)],
        exitSubs := exitSubs demo_distinct @ [(taskId ?B, ''w2'')],
        posted := posted demo_distinct @ [(0, execute_of ''w2'' ?B)]\<rparr>)"
    by blast
  from a el only have r: "tasksQueue (snd (pickTask ''w2'' demo_distinct)) =
      remove1 ?B (tasksQueue demo_distinct)"
    by blast
  have reg': "map_of (workers demo_running) ''w2'' = Some 0" by code_simp
  have q': "tasksQueue demo_running = []" by code_simp
  have el': "filter (eligible ''w2'') (tasksQueue demo_running) = []" by (simp add: q')
  from pickTask_dispatch [OF demo_running_def reg'] el'
  have n: "pickTask ''w2'' demo_running = (None, demo_running)" by blast
  have m: "map entryPoint (tasksQueue demo_distinct) = [''B'', ''C'', ''D'']" by (simp add: q)
  have m': "map entryPoint (tasksQueue (snd (pickTask ''w2'' demo_distinct))) = [''C'', ''D'']"
    by (simp add: r q)
  have pins: "map targetWorkerId (tasksQueue demo_distinct) = [None, Some ''w2'', None]"
    by (simp add: q)
  show ?thesis
    using reg pins m m' reg' q' n p ex by simp
qed

text \<open>
  Claim C2 as stated fails where two queued tasks have drawn the same id: \<^verbatim>\<open>pickTask\<close>
  for the idle worker \<open>w4\<close> posts the Execute of B alone and empties the queue, so C is
  removed without being dispatched.
\<close>

theorem pickTask_removes_other_task_counterexample:
  "''w4'' \<notin> set (busyWorkers demo_idle) \<and>
   map_of (workers demo_idle) ''w4'' = Some 1 \<and>
   map entryPoint (tasksQueue demo_idle) = [''B'', ''C''] \<and>
   filter (eligible ''w4'') (tasksQueue demo_idle) = tasksQueue demo_idle \<and>
   tasksQueue (snd (pickTask ''w4'' demo_idle)) = [] \<and>
   posted (snd (pickTask ''w4'' demo_idle)) =
     posted demo_idle @
       [(1, \<lparr>exec_taskId = ''t7'', exec_workerId = ''w4'', exec_entryPoint = ''return B'',
              exec_args = JsUndefined\<rparr>)]"
  by code_simp

section \<open>The channel of a task\<close>

text \<open>
  Claim C3. Over the messages of the merged channel, the channel of task \<open>tid\<close> carries
  the messages with that task id, in order, up to and including the first Exit with
  that id, and nothing after it. It never carries two Exit messages; once the Exit of
  the task has been emitted, it carries exactly that one, as its last message.
\<close>

theorem task_channel_up_to_first_exit:
  "getTaskChannel tid ms = filter (\<lambda>m. data_taskId m = tid) (upto_first_exit tid ms) \<and>
   length (filter (\<lambda>m. mtype m = Exit) (getTaskChannel tid ms)) \<le> 1 \<and>
   ((\<exists>m\<in>set ms. mtype m = Exit \<and> data_taskId m = tid) \<longrightarrow>
      (\<exists>pre e. getTaskChannel tid ms = pre @ [e] \<and> mtype e = Exit \<and>
         (\<forall>m\<in>set pre. mtype m \<noteq> Exit)))"
  using getTaskChannel_upto getTaskChannel_exits getTaskChannel_tail by blast

theorem task_channel_up_to_first_exit_witness:
  "(\<exists>m\<in>set demo_messages. mtype m = Exit \<and> data_taskId m = ''t1'') \<and>
   getTaskChannel ''t1'' demo_messages =
     [demo_messages ! 0, demo_messages ! 2, demo_messages ! 4] \<and>
   (\<exists>pre e. getTaskChannel ''t1'' demo_messages = pre @ [e] \<and> mtype e = Exit \<and>
      (\<forall>m\<in>set pre. mtype m \<noteq> Exit))"
proof -
  have a: "\<exists>m\<in>set demo_messages. mtype m = Exit \<and> data_taskId m = ''t1''"
    by (simp add: demo_messages_def exit_of_def)
  have u: "upto_first_exit ''t1'' demo_messages = take 5 demo_messages"
    by (simp add: demo_messages_def exit_of_def)
  have "getTaskChannel ''t1'' demo_messages =
      filter (\<lambda>m. data_taskId m = ''t1'') (take 5 demo_messages)"
    using task_channel_up_to_first_exit [of "''t1''" demo_messages] u by simp
  then have b: "getTaskChannel ''t1'' demo_messages =
      [demo_messages ! 0, demo_messages ! 2, demo_messages ! 4]"
    by (simp add: demo_messages_def exit_of_def)
  show ?thesis
    using a b task_channel_up_to_first_exit [of "''t1''" demo_messages] by blast
qed

section \<open>Release of a worker\<close>

text \<open>
  Claim C4, amended. In a state that the pool reaches from its construction, let an Exit
  message arrive from the Worker of a registered worker \<open>w\<close>, for a task id that has
  exactly one live subscription of \<^verbatim>\<open>pickTask\<close>, made for \<open>w\<close> (no other running task
  has drawn the same id), while the subscriber of \<^verbatim>\<open>workerReleased$\<close> is still subscribed;
  the error flag of the message is arbitrary. Then \<open>w\<close> is filtered out of the busy
  workers, the entries of the task out of the running tasks, and \<^verbatim>\<open>pickTask(w)\<close> runs at
  once: with no eligible task queued, \<open>w\<close> is left idle; otherwise \<open>w\<close> is busy again
  with the oldest eligible task, which gets its Execute message.
\<close>

theorem exit_releases_worker:
  assumes reach: "s = run es (init hc env)"
      and exit: "mtype m = Exit"
      and sub: "filter (\<lambda>(t', w'). t' = data_taskId m) (exitSubs s) = [(data_taskId m, w)]"
      and reg: "map_of (workers s) w = Some h"
      and live: "releaseSubscribed s"
  shows "(filter (eligible w) (tasksQueue s) = [] \<longrightarrow>
            w \<notin> set (busyWorkers (onmessage h m s)) \<and>
            onmessage h m s =
              s\<lparr>busyWorkers := filter (\<lambda>wId. wId \<noteq> w) (busyWorkers s),
                runningTasks := filter (\<lambda>(w', t'). t' \<noteq> data_taskId m) (runningTasks s),
                exitSubs := remove1 (data_taskId m, w) (exitSubs s)\<rparr>) \<and>
         (\<forall>t rest. filter (eligible w) (tasksQueue s) = t # rest \<longrightarrow>
            onmessage h m s =
              s\<lparr>busyWorkers := filter (\<lambda>wId. wId \<noteq> w) (busyWorkers s) @ [w],
                tasksQueue := filter (\<lambda>t'. taskId t' \<noteq> taskId t) (tasksQueue s),
                runningTasks :=
                  filter (\<lambda>(w', t'). t' \<noteq> data_taskId m) (runningTasks s) @ [(w, taskId t)],
                exitSubs := remove1 (data_taskId m, w) (exitSubs s) @ [(taskId t, w)],
                posted := posted s @ [(h, execute_of w t)]\<rparr>)"
proof -
  from reg have "h < length (units s) \<and> pipeline (units s ! h) = Completed"
    unfolding reach by (simp add: reachable_handles)
  then have sender: "h < length (units s)" "pipeline (units s ! h) = Completed" by simp_all
  have wf: "\<forall>t\<in>set (tasksQueue s). targetWorkerId t \<noteq> Some []"
    unfolding reach by (rule reachable_queue_wf)
  from sender exit sub reg wf live show ?thesis by (rule exit_release)
qed

theorem exit_releases_worker_witness:
  "(\<forall>e. busyWorkers demo_running = [''w2''] \<and> releaseSubscribed demo_running \<and>
        onmessage 0 (exit_of ''t1'' ''w2'' e) demo_running =
          demo_running\<lparr>busyWorkers := [], runningTasks := [], exitSubs := []\<rparr>) \<and>
   (\<forall>e. map entryPoint (tasksQueue demo_distinct) = [''B'', ''C'', ''D''] \<and>
        onmessage 0 (exit_of ''t1'' ''w2'' e) demo_distinct =
          demo_distinct\<lparr>busyWorkers := [''w2''],
            tasksQueue := filter (\<lambda>t'. taskId t' \<noteq> ''t7'') (tasksQueue demo_distinct),
            runningTasks := [(''w2'', ''t7'')],
            exitSubs := [(''t7'', ''w2'')],
            posted := posted demo_distinct @
              [(0, \<lparr>exec_taskId = ''t7'', exec_workerId = ''w2'',
                     exec_entryPoint = ''return B'', exec_args = JsUndefined\<rparr>)]\<rparr>)"
proof -
  have idle: "busyWorkers demo_running = [''w2''] \<and> releaseSubscribed demo_running \<and>
        onmessage 0 (exit_of ''t1'' ''w2'' e) demo_running =
          demo_running\<lparr>busyWorkers := [], runningTasks := [], exitSubs := []\<rparr>" for e
  proof -
  let ?m = "exit_of ''t1'' ''w2'' e"
  have a3: "mtype ?m = Exit" by (simp add: exit_of_def)
  have subs: "exitSubs demo_running = [(''t1'', ''w2'')]" by code_simp
  have a4: "filter (\<lambda>(t', w'). t' = data_taskId ?m) (exitSubs demo_running) =
      [(data_taskId ?m, ''w2'')]"
    by (simp add: subs exit_of_def)
  have a5: "map_of (workers demo_running) ''w2'' = Some 0" by code_simp
  have a6: "releaseSubscribed demo_running" by code_simp
  have q: "tasksQueue demo_running = []" by code_simp
  have b: "busyWorkers demo_running = [''w2'']" by code_simp
  have r: "runningTasks demo_running = [(''w2'', ''t1'')]" by code_simp
  from exit_releases_worker [OF demo_running_def a3 a4 a5 a6] q
  have "onmessage 0 ?m demo_running =
      demo_running\<lparr>busyWorkers := filter (\<lambda>wId. wId \<noteq> ''w2'') (busyWorkers demo_running),
        runningTasks :=
          filter (\<lambda>(w', t'). t' \<noteq> data_taskId ?m) (runningTasks demo_running),
        exitSubs := remove1 (data_taskId ?m, ''w2'') (exitSubs demo_running)\<rparr>"
    by simp
  then show ?thesis
    using a6 by (simp add: b r subs exit_of_def)
  qed
  have again: "map entryPoint (tasksQueue demo_distinct) = [''B'', ''C'', ''D''] \<and>
        onmessage 0 (exit_of ''t1'' ''w2'' e) demo_distinct =
          demo_distinct\<lparr>busyWorkers := [''w2''],
            tasksQueue := filter (\<lambda>t'. taskId t' \<noteq> ''t7'') (tasksQueue demo_distinct),
            runningTasks := [(''w2'', ''t7'')],
            exitSubs := [(''t7'', ''w2'')],
            posted := posted demo_distinct @
              [(0, \<lparr>exec_taskId = ''t7'', exec_workerId = ''w2'',
                     exec_entryPoint = ''return B'', exec_args = JsUndefined\<rparr>)]\<rparr>" for e
  proof -
  let ?m = "exit_of ''t1'' ''w2'' e"
  let ?B = "\<lparr>taskId = ''t7'', targetWorkerId = None, args = JsUndefined, entryPoint = ''B''\<rparr>"
  let ?C = "\<lparr>taskId = ''t6'', targetWorkerId = Some ''w2'', args = JsUndefined,
             entryPoint = ''C''\<rparr>"
  let ?D = "\<lparr>taskId = ''t5'', targetWorkerId = None, args = JsUndefined, entryPoint = ''D''\<rparr>"
  have a3: "mtype ?m = Exit" by (simp add: exit_of_def)
  have subs: "exitSubs demo_distinct = [(''t1'', ''w2'')]" by code_simp
  have a4: "filter (\<lambda>(t', w'). t' = data_taskId ?m) (exitSubs demo_distinct) =
      [(data_taskId ?m, ''w2'')]"
    by (simp add: subs exit_of_def)
  have a5: "map_of (workers demo_distinct) ''w2'' = Some 0" by code_simp
  have a6: "releaseSubscribed demo_distinct" by code_simp
  have q: "tasksQueue demo_distinct = [?B, ?C, ?D]" by code_simp
  have el: "filter (eligible ''w2'') (tasksQueue demo_distinct) = ?B # [?C, ?D]"
    by (simp add: q eligible_def)
  have b: "busyWorkers demo_distinct = [''w2'']" by code_simp
  have r: "runningTasks demo_distinct = [(''w2'', ''t1'')]" by code_simp
  from exit_releases_worker [OF demo_distinct_def a3 a4 a5 a6] el
  have "onmessage 0 ?m demo_distinct =
      demo_distinct\<lparr>
        busyWorkers := filter (\<lambda>wId. wId \<noteq> ''w2'') (busyWorkers demo_distinct) @ [''w2''],
        tasksQueue := filter (\<lambda>t'. taskId t' \<noteq> taskId ?B) (tasksQueue demo_distinct),
        runningTasks :=
          filter (\<lambda>(w', t'). t' \<noteq> data_taskId ?m) (runningTasks demo_distinct) @
            [(''w2'', taskId ?B)],
        exitSubs := remove1 (data_taskId ?m, ''w2'') (exitSubs demo_distinct) @
            [(taskId ?B, ''w2'')],
        posted := posted demo_distinct @ [(0, execute_of ''w2'' ?B)]\<rparr>"
    by blast
  then show ?thesis
    by (simp add: b r subs q exit_of_def execute_of_def)
  qed
  show ?thesis using idle again by blast
qed

text \<open>
  Claim C4 as stated fails when two running tasks have drawn the same task id. In
  \<open>demo_shared_id\<close> task B was dispatched to \<open>w5\<close> with task id \<open>t7\<close>, and the Exit of A,
  which bore the same id, has already used up both subscriptions. When the terminal
  Exit of B arrives from \<open>w5\<close>, \<open>w5\<close> is busy and E is queued and eligible for it; the
  message changes nothing: \<open>w5\<close> stays in the busy workers and \<^verbatim>\<open>pickTask\<close> is not
  attempted.
\<close>

theorem exit_with_shared_id_counterexample:
  "posted demo_shared_id ! 3 =
     (1, \<lparr>exec_taskId = ''t7'', exec_workerId = ''w5'', exec_entryPoint = ''return B'',
           exec_args = JsUndefined\<rparr>) \<and>
   map_of (workers demo_shared_id) ''w5'' = Some 1 \<and>
   releaseSubscribed demo_shared_id \<and>
   exitSubs demo_shared_id = [(''t8'', ''w2''), (''t9'', ''w5'')] \<and>
   busyWorkers demo_shared_id = [''w2'', ''w5''] \<and>
   map entryPoint (filter (eligible ''w5'') (tasksQueue demo_shared_id)) = [''E''] \<and>
   onmessage 1 (exit_of ''t7'' ''w5'' False) demo_shared_id = demo_shared_id \<and>
   onmessage 1 (exit_of ''t7'' ''w5'' True) demo_shared_id = demo_shared_id \<and>
   ''w5'' \<in> set (busyWorkers (onmessage 1 (exit_of ''t7'' ''w5'' False) demo_shared_id)) \<and>
   tasksQueue (onmessage 1 (exit_of ''t7'' ''w5'' False) demo_shared_id) =
     tasksQueue demo_shared_id \<and>
   posted (onmessage 1 (exit_of ''t7'' ''w5'' False) demo_shared_id) = posted demo_shared_id"
  by code_simp

section \<open>Installation of a unit\<close>







section \<open>schedule for an unknown worker\<close>

lemma get_property_Absent:
  "get_property obj k = Absent \<longleftrightarrow> k \<notin> fst ` set obj \<and> k \<notin> set Object_prototype_names"
proof (cases "map_of obj k")
  case None
  then have "k \<notin> fst ` set obj" by (simp add: map_of_eq_None_iff)
  with None show ?thesis by (simp add: get_property_def)
next
  case (Some h)
  then have "k \<in> fst ` set obj" by (metis map_of_eq_None_iff option.distinct(1))
  with Some show ?thesis by (simp add: get_property_def)
qed

text \<open>
  Claim C6, amended. \<^verbatim>\<open>schedule\<close> with a target id that is a non-empty string, is no key
  of the workers map and is no name that the map inherits from \<^verbatim>\<open>Object.prototype\<close>,
  throws and leaves the whole state as it was: nothing is posted, nothing is queued.
\<close>

theorem schedule_unknown_worker:
  assumes "tw \<noteq> []" and "tw \<notin> fst ` set (workers s)" and "tw \<notin> set Object_prototype_names"
  shows "schedule ep a (Some tw) draws s = (Some UnknownWorker, s)"
  using assms by (simp add: schedule_def truthy_id_def get_property_Absent split: prod.splits)

theorem schedule_unknown_worker_witness:
  "''w1'' \<noteq> [] \<and> ''w1'' \<notin> fst ` set (workers demo_running) \<and>
   ''w1'' \<notin> set Object_prototype_names \<and>
   schedule ''D'' JsUndefined (Some ''w1'') (5, 8, 9) demo_running =
     (Some UnknownWorker, demo_running)"
proof -
  have a: "''w1'' \<noteq> []" by simp
  have b: "''w1'' \<notin> fst ` set (workers demo_running)" by code_simp
  have c: "''w1'' \<notin> set Object_prototype_names" by code_simp
  show ?thesis
    using a b c schedule_unknown_worker [OF a b c] by blast
qed

text \<open>
  Claim C6 as stated fails for the empty string, which is no key of the workers map:
  \<^verbatim>\<open>targetWorkerId && ...\<close> takes it for an absent target. With an idle worker \<open>w2\<close> in
  the pool, the call does not throw, marks \<open>w2\<close> busy and posts an Execute message.
\<close>

theorem schedule_empty_target_counterexample:
  "[] \<notin> fst ` set (workers demo_reserved) \<and>
   busyWorkers demo_reserved = [] \<and> runningTasks demo_reserved = [] \<and>
   fst (schedule ''D'' JsUndefined (Some []) (5, 8, 9) demo_reserved) = None \<and>
   busyWorkers (snd (schedule ''D'' JsUndefined (Some []) (5, 8, 9) demo_reserved)) = [''w2''] \<and>
   runningTasks (snd (schedule ''D'' JsUndefined (Some []) (5, 8, 9) demo_reserved)) =
     [(''w2'', ''t5'')] \<and>
   posted (snd (schedule ''D'' JsUndefined (Some []) (5, 8, 9) demo_reserved)) =
     posted demo_reserved @
       [(0, \<lparr>exec_taskId = ''t5'', exec_workerId = ''w2'', exec_entryPoint = ''return D'',
              exec_args = JsUndefined\<rparr>)]"
  by code_simp

section \<open>reserve\<close>

lemma registration_step:
  assumes "h < length (units s)" and "pipeline (units s ! h) = Waiting ForkJoin"
      and "mtype m = Exit"
      and "filter (\<lambda>(t', w'). t' = data_taskId m) (exitSubs s) = []"
  shows "onmessage h m s =
           s\<lparr>units := (units s)[h := (units s ! h)\<lparr>pipeline := Completed\<rparr>],
             workers := AList.update (workerId (units s ! h)) h (workers s)\<rparr>"
proof -
  let ?s1 = "s\<lparr>units := (units s)[h := (units s ! h)\<lparr>pipeline := Completed\<rparr>],
             workers := AList.update (workerId (units s ! h)) h (workers s)\<rparr>"
  have w: "workerChannel_next h m s = ?s1"
    using assms by (simp add: workerChannel_next_def Let_def)
  have "deliver (data_taskId m) (exitSubs ?s1) ?s1 = ?s1"
    using assms(4) by (simp add: deliver_no_match)
  with assms(1,3) w show ?thesis
    by (simp add: onmessage_def mergedChannel_next_def)
qed

text \<open>
  Claim C7, amended. For a factory whose environment is complete (constructed with
  \<^verbatim>\<open>postInstallTasks\<close>), \<^verbatim>\<open>reserve\<close> creates one new unit for each of the \<open>n\<close> workers
  asked for, whatever the units that exist and whatever the capacity, posts the
  installing Execute message to each, and changes nothing else. In every later state, a
  unit of this call whose installation pipeline has completed is a key of the workers
  map. If moreover the call is made in a state reached from construction and no two
  units of the later state bear the same worker id, then every worker registered before
  the call is still registered there with its Worker, and every unit of this call whose
  installation pipeline has completed is registered under its own id with its own
  Worker: the pool holds the units installed before and the new ones. The first Exit
  message of such a unit (whose task id has no live subscription of \<^verbatim>\<open>pickTask\<close>)
  registers it and changes nothing else, so the unit is idle then unless its id was
  among the busy workers.
\<close>

theorem reserve_creates_all:
  "reserve draws s =
     s\<lparr>units := units s @ map (\<lambda>(rw, ri). new_unit rw ri (Waiting ForkJoin)) draws,
       posted := posted s @
         map (\<lambda>(h, (rw, ri)). (h, install_execute s rw ri))
           (zip [length (units s)..<length (units s) + length draws] draws)\<rparr> \<and>
   (registered_inv s \<longrightarrow>
      (\<forall>i<length draws.
         pipeline (units (run es (reserve draws s)) ! (length (units s) + i)) = Completed \<longrightarrow>
         worker_id (fst (draws ! i)) \<in> fst ` set (workers (run es (reserve draws s))))) \<and>
   (s = run es0 (init hc env) \<and>
    distinct (map workerId (units (run es (reserve draws s)))) \<longrightarrow>
      (\<forall>w k. map_of (workers s) w = Some k \<longrightarrow>
         map_of (workers (run es (reserve draws s))) w = Some k) \<and>
      (\<forall>i<length draws.
         pipeline (units (run es (reserve draws s)) ! (length (units s) + i)) = Completed \<longrightarrow>
         map_of (workers (run es (reserve draws s))) (worker_id (fst (draws ! i))) =
           Some (length (units s) + i))) \<and>
   (h < length (units s') \<and> pipeline (units s' ! h) = Waiting ForkJoin \<and> mtype m = Exit \<and>
    filter (\<lambda>(t', w'). t' = data_taskId m) (exitSubs s') = [] \<longrightarrow>
      onmessage h m s' =
        s'\<lparr>units := (units s')[h := (units s' ! h)\<lparr>pipeline := Completed\<rparr>],
           workers := AList.update (workerId (units s' ! h)) h (workers s')\<rparr>)"
proof -
  let ?S = "run es (reserve draws s)"
  have c1: "reserve draws s =
     s\<lparr>units := units s @ map (\<lambda>(rw, ri). new_unit rw ri (Waiting ForkJoin)) draws,
       posted := posted s @
         map (\<lambda>(h, (rw, ri)). (h, install_execute s rw ri))
           (zip [length (units s)..<length (units s) + length draws] draws)\<rparr>"
    by (rule reserve_eq)
  have c2: "registered_inv s \<longrightarrow>
      (\<forall>i<length draws.
         pipeline (units ?S ! (length (units s) + i)) = Completed \<longrightarrow>
         worker_id (fst (draws ! i)) \<in> fst ` set (workers ?S))"
  proof (intro impI allI)
    fix i
    let ?j = "length (units s) + i"
    assume reg: "registered_inv s" and i: "i < length draws"
      and c: "pipeline (units ?S ! ?j) = Completed"
    have j: "?j < length (units (reserve draws s))" using i by (simp add: reserve_eq)
    have id0: "workerId (units (reserve draws s) ! ?j) = worker_id (fst (draws ! i))"
      using i by (simp add: reserve_eq nth_append new_unit_def split_def)
    from run_keeps_id [OF j, of es] id0
    have jS: "?j < length (units ?S)"
      and idS: "workerId (units ?S ! ?j) = worker_id (fst (draws ! i))"
      by simp_all
    have "registered_inv ?S" using reg by (simp add: registered_run registered_reserve)
    with jS c have "workerId (units ?S ! ?j) \<in> fst ` set (workers ?S)"
      by (simp add: registered_inv_nth)
    with idS show "worker_id (fst (draws ! i)) \<in> fst ` set (workers ?S)" by simp
  qed
  have c3: "s = run es0 (init hc env) \<and> distinct (map workerId (units ?S)) \<longrightarrow>
      (\<forall>w k. map_of (workers s) w = Some k \<longrightarrow> map_of (workers ?S) w = Some k) \<and>
      (\<forall>i<length draws.
         pipeline (units ?S ! (length (units s) + i)) = Completed \<longrightarrow>
         map_of (workers ?S) (worker_id (fst (draws ! i))) = Some (length (units s) + i))"
  proof
    assume a: "s = run es0 (init hc env) \<and> distinct (map workerId (units ?S))"
    from a have r: "s = run es0 (init hc env)" by (rule conjunct1)
    from a have "distinct (map workerId (units ?S))" by (rule conjunct2)
    with r show "(\<forall>w k. map_of (workers s) w = Some k \<longrightarrow> map_of (workers ?S) w = Some k) \<and>
      (\<forall>i<length draws.
         pipeline (units ?S ! (length (units s) + i)) = Completed \<longrightarrow>
         map_of (workers ?S) (worker_id (fst (draws ! i))) = Some (length (units s) + i))"
      by (rule reserve_registers_own)
  qed
  have c4: "h < length (units s') \<and> pipeline (units s' ! h) = Waiting ForkJoin \<and>
    mtype m = Exit \<and> filter (\<lambda>(t', w'). t' = data_taskId m) (exitSubs s') = [] \<longrightarrow>
      onmessage h m s' =
        s'\<lparr>units := (units s')[h := (units s' ! h)\<lparr>pipeline := Completed\<rparr>],
           workers := AList.update (workerId (units s' ! h)) h (workers s')\<rparr>"
    by (simp add: registration_step)
  from c1 c2 c3 c4 show ?thesis by (intro conjI)
qed

theorem reserve_creates_all_witness:
  "registered_inv demo_reserved \<and>
   map workerId (units (run [OnMessage 1 (exit_of ''t6'' ''w5'' True)]
     (reserve [(5, 6)] demo_reserved))) = [''w2'', ''w5''] \<and>
   units (reserve [(5, 6)] demo_reserved) =
     units demo_reserved @ [new_unit 5 6 (Waiting ForkJoin)] \<and>
   pipeline (units (run [OnMessage 1 (exit_of ''t6'' ''w5'' True)]
     (reserve [(5, 6)] demo_reserved)) ! 1) = Completed \<and>
   worker_id 5 \<in> fst ` set (workers (run [OnMessage 1 (exit_of ''t6'' ''w5'' True)]
     (reserve [(5, 6)] demo_reserved))) \<and>
   map_of (workers demo_reserved) ''w2'' = Some 0 \<and>
   map_of (workers (run [OnMessage 1 (exit_of ''t6'' ''w5'' True)]
     (reserve [(5, 6)] demo_reserved))) ''w2'' = Some 0 \<and>
   map_of (workers (run [OnMessage 1 (exit_of ''t6'' ''w5'' True)]
     (reserve [(5, 6)] demo_reserved))) (worker_id 5) = Some 1 \<and>
   onmessage 1 (exit_of ''t6'' ''w5'' True) (reserve [(5, 6)] demo_reserved) =
     (reserve [(5, 6)] demo_reserved)
       \<lparr>units := (units (reserve [(5, 6)] demo_reserved))
           [1 := (units (reserve [(5, 6)] demo_reserved) ! 1)\<lparr>pipeline := Completed\<rparr>],
        workers := AList.update (workerId (units (reserve [(5, 6)] demo_reserved) ! 1)) 1
           (workers (reserve [(5, 6)] demo_reserved))\<rparr>"
proof -
  let ?m = "exit_of ''t6'' ''w5'' True"
  let ?r = "reserve [(5, 6)] demo_reserved"
  let ?S = "run [OnMessage 1 ?m] ?r"
  note inst = reserve_creates_all [of "[(5, 6)]" demo_reserved "[OnMessage 1 ?m]"
      "[Reserve [(2, 3)], OnMessage 0 (exit_of ''t3'' ''w2'' False)]" 3 JsUndefined 1 ?r ?m]
  have reg: "registered_inv demo_reserved" by code_simp
  have ids: "map workerId (units ?S) = [''w2'', ''w5'']" by code_simp
  then have dist: "distinct (map workerId (units ?S))" by simp
  have n: "length (units demo_reserved) = 1" by code_simp
  have c: "pipeline (units ?S ! 1) = Completed" by code_simp
  have w2: "map_of (workers demo_reserved) ''w2'' = Some 0" by code_simp
  have h1: "1 < length (units ?r)" by code_simp
  have h2: "pipeline (units ?r ! 1) = Waiting ForkJoin" by code_simp
  have h3: "mtype ?m = Exit" by (simp add: exit_of_def)
  have h4: "filter (\<lambda>(t', w'). t' = data_taskId ?m) (exitSubs ?r) = []" by code_simp
  from inst have a: "units ?r = units demo_reserved @ [new_unit 5 6 (Waiting ForkJoin)]"
    by simp
  from inst reg have "\<forall>i<length [(5::nat, 6::nat)].
      pipeline (units ?S ! (length (units demo_reserved) + i)) = Completed \<longrightarrow>
      worker_id (fst ([(5::nat, 6::nat)] ! i)) \<in> fst ` set (workers ?S)"
    by blast
  then have "pipeline (units ?S ! (length (units demo_reserved) + 0)) = Completed \<longrightarrow>
      worker_id (fst ([(5::nat, 6::nat)] ! 0)) \<in> fst ` set (workers ?S)"
    by simp
  with c n have b: "worker_id 5 \<in> fst ` set (workers ?S)" by simp
  from inst demo_reserved_def dist
  have own: "(\<forall>w k. map_of (workers demo_reserved) w = Some k \<longrightarrow>
        map_of (workers ?S) w = Some k) \<and>
      (\<forall>i<length [(5::nat, 6::nat)].
         pipeline (units ?S ! (length (units demo_reserved) + i)) = Completed \<longrightarrow>
         map_of (workers ?S) (worker_id (fst ([(5::nat, 6::nat)] ! i))) =
           Some (length (units demo_reserved) + i))"
    by blast
  from own w2 have e: "map_of (workers ?S) ''w2'' = Some 0" by blast
  from own have "pipeline (units ?S ! (length (units demo_reserved) + 0)) = Completed \<longrightarrow>
      map_of (workers ?S) (worker_id (fst ([(5::nat, 6::nat)] ! 0))) =
        Some (length (units demo_reserved) + 0)"
    by simp
  with c n have f: "map_of (workers ?S) (worker_id 5) = Some 1" by simp
  from inst h1 h2 h3 h4 have d: "onmessage 1 ?m ?r =
      ?r\<lparr>units := (units ?r)[1 := (units ?r ! 1)\<lparr>pipeline := Completed\<rparr>],
         workers := AList.update (workerId (units ?r ! 1)) 1 (workers ?r)\<rparr>"
    by blast
  from reg ids a c b w2 e f d show ?thesis by (intro conjI)
qed

text \<open>
  Claim C7 as stated fails. With capacity 1 and one unit installed and idle,
  \<^verbatim>\<open>reserve\<close> of one worker creates a second unit; once it has exited its installation
  the pool holds two installed idle units.
\<close>

theorem reserve_adds_to_existing_counterexample:
  "poolSize demo_reserved = 1 \<and>
   map fst (workers demo_reserved) = [''w2''] \<and> busyWorkers demo_reserved = [] \<and>
   length (units demo_reserved) = 1 \<and>
   length (units (reserve [(5, 6)] demo_reserved)) = 2 \<and>
   map fst (workers (run [Reserve [(5, 6)], OnMessage 1 (exit_of ''t6'' ''w5'' False)]
     demo_reserved)) = [''w2'', ''w5''] \<and>
   busyWorkers (run [Reserve [(5, 6)], OnMessage 1 (exit_of ''t6'' ''w5'' False)]
     demo_reserved) = []"
  by code_simp

section \<open>Exit of a task, from the worker to the pool\<close>




section \<open>terminate\<close>

lemma push_terminated: "push t (s\<lparr>terminated := x\<rparr>) = (push t s)\<lparr>terminated := x\<rparr>"
  by (simp add: push_def)

lemma subscribe_terminated:
  "subscribe h k (s\<lparr>terminated := x\<rparr>) = (subscribe h k s)\<lparr>terminated := x\<rparr>"
  by (simp add: subscribe_def)

lemma pickTask_terminated:
  "pickTask w (s\<lparr>terminated := x\<rparr>) =
     (fst (pickTask w s), (snd (pickTask w s))\<lparr>terminated := x\<rparr>)"
  by (simp add: pickTask_def Let_def split: option.splits property.splits)

lemma getIdle_terminated:
  "getIdleWorkerOrCreate rw ri (s\<lparr>terminated := x\<rparr>) =
     (fst (getIdleWorkerOrCreate rw ri s), (snd (getIdleWorkerOrCreate rw ri s))\<lparr>terminated := x\<rparr>)"
  by (simp add: getIdleWorkerOrCreate_def createWorker_def Let_def split: option.splits)

lemma schedule_terminated:
  "schedule ep a target draws (s\<lparr>terminated := x\<rparr>) =
     (fst (schedule ep a target draws s), (snd (schedule ep a target draws s))\<lparr>terminated := x\<rparr>)"
  by (simp add: schedule_def push_terminated subscribe_terminated pickTask_terminated
      getIdle_terminated Let_def
      split: prod.splits option.splits worker_source.splits)

text \<open>
  Claim C9. \<^verbatim>\<open>terminate()\<close> calls \<^verbatim>\<open>terminate\<close> on the Worker of every entry of the workers
  map and changes no field of the orchestrator: workers map, busy workers, running
  tasks and queue are what they were. A later \<^verbatim>\<open>pickTask\<close> or \<^verbatim>\<open>schedule\<close> does what it
  would have done without the call, so terminated workers are still chosen.
\<close>

theorem terminate_frame:
  "workers (terminate s) = workers s \<and> busyWorkers (terminate s) = busyWorkers s \<and>
   runningTasks (terminate s) = runningTasks s \<and> tasksQueue (terminate s) = tasksQueue s \<and>
   units (terminate s) = units s \<and> exitSubs (terminate s) = exitSubs s \<and>
   releaseSubscribed (terminate s) = releaseSubscribed s \<and>
   posted (terminate s) = posted s \<and>
   terminated (terminate s) = terminated s @ map snd (workers s) \<and>
   pickTask w (terminate s) =
     (fst (pickTask w s), (snd (pickTask w s))\<lparr>terminated := terminated (terminate s)\<rparr>) \<and>
   schedule ep a target draws (terminate s) =
     (fst (schedule ep a target draws s),
      (snd (schedule ep a target draws s))\<lparr>terminated := terminated (terminate s)\<rparr>)"
  by (simp add: terminate_def pickTask_terminated schedule_terminated)

section \<open>What pickTask removes from the queue\<close>




end
